theory Spec2Isabelle
  imports Complex_Main
begin

section \<open>Numbers and arrays of the JavaScript source\<close>

text \<open>
  The source computes with JavaScript numbers. They are modelled as exact reals; a value
  that JavaScript delivers as \<^verbatim>\<open>NaN\<close>, \<^verbatim>\<open>undefined\<close> or an infinity is \<open>None\<close> of
  \<open>real option\<close>. Rounding error and overflow of the 64-bit format are outside the model.
\<close>

type_synonym number = "real option"

text \<open>\<^verbatim>\<open>xs[i]\<close>: reading past the end of an array gives \<^verbatim>\<open>undefined\<close>.\<close>

definition elemAt :: "real list \<Rightarrow> nat \<Rightarrow> number" where
  "elemAt xs i = (if i < length xs then Some (xs ! i) else None)"

text \<open>Arithmetic and comparison with a possibly undefined operand: \<^verbatim>\<open>NaN\<close> propagates
  through \<^verbatim>\<open>+\<close>, \<^verbatim>\<open>-\<close> and \<^verbatim>\<open>*\<close>, and every comparison with it is false.\<close>

fun jsAdd :: "number \<Rightarrow> number \<Rightarrow> number" where
  "jsAdd (Some x) (Some y) = Some (x + y)"
| "jsAdd _ _ = None"

fun jsSub :: "number \<Rightarrow> number \<Rightarrow> number" where
  "jsSub (Some x) (Some y) = Some (x - y)"
| "jsSub _ _ = None"

fun jsMul :: "number \<Rightarrow> number \<Rightarrow> number" where
  "jsMul (Some x) (Some y) = Some (x * y)"
| "jsMul _ _ = None"

fun jsEq :: "number \<Rightarrow> number \<Rightarrow> bool" where
  "jsEq (Some x) (Some y) = (x = y)"
| "jsEq _ _ = False"

fun jsLe :: "number \<Rightarrow> number \<Rightarrow> bool" where
  "jsLe (Some x) (Some y) = (x \<le> y)"
| "jsLe _ _ = False"

fun jsGt :: "number \<Rightarrow> number \<Rightarrow> bool" where
  "jsGt (Some x) (Some y) = (x > y)"
| "jsGt _ _ = False"

text \<open>Division of finite numbers: a zero divisor gives \<^verbatim>\<open>NaN\<close> or an infinity, so no
  finite result.\<close>

definition jsDiv :: "real \<Rightarrow> real \<Rightarrow> number" where
  "jsDiv x y = (if y = 0 then None else Some (x / y))"

text \<open>\<^verbatim>\<open>Math.round\<close>: the nearest integer, a tie going up. \<^verbatim>\<open>Math.floor\<close> is \<open>floor\<close>.\<close>

definition Math_round :: "real \<Rightarrow> int" where
  "Math_round x = \<lfloor>x + 1 / 2\<rfloor>"

section \<open>HistogramData\<close>

text \<open>Two parallel arrays and two cached sums (\<^verbatim>\<open>src/js/HistogramData.js\<close>).\<close>

record histogramData =
  values_h :: "real list"
  frequencies :: "real list"
  sum_h :: real
  sumOfSquares :: real

definition numberOfBins :: "histogramData \<Rightarrow> nat" where
  "numberOfBins h = length (values_h h)"

subsection \<open>binIndexForDataPoint\<close>

text \<open>
  \<^verbatim>\<open>step = binValues[1] - binValues[0]\<close> is undefined for fewer than two bins, and then so
  is the result. With a zero step the quotient is an infinity, which \<^verbatim>\<open>Math.max\<close> and
  \<^verbatim>\<open>Math.min\<close> clamp to the last or the first index, unless the point sits on
  \<^verbatim>\<open>binValues[0]\<close>, where \<^verbatim>\<open>0/0\<close> is \<^verbatim>\<open>NaN\<close>.
\<close>

definition binIndexForDataPoint :: "real \<Rightarrow> real list \<Rightarrow> nat option" where
  "binIndexForDataPoint dataPoint bvs =
     (case jsSub (elemAt bvs 1) (elemAt bvs 0) of
        None \<Rightarrow> None
      | Some step \<Rightarrow>
          (if step = 0 then
             (if dataPoint - bvs ! 0 > 0 then Some (length bvs - 1)
              else if dataPoint - bvs ! 0 < 0 then Some 0
              else None)
           else
             (let binIndex = Math_round ((dataPoint - bvs ! 0) / step)
              in Some (nat (min (max binIndex 0) (int (length bvs) - 1))))))"

text \<open>The bin sets of the data model: at least two bin centres, strictly increasing,
  every gap equal to the first one.\<close>

definition equalWidthBins :: "real list \<Rightarrow> bool" where
  "equalWidthBins bvs \<longleftrightarrow>
     2 \<le> length bvs \<and> bvs ! 0 < bvs ! 1 \<and>
     list_all (\<lambda>i. bvs ! Suc i - bvs ! i = bvs ! 1 - bvs ! 0) [0..<length bvs - 1]"

subsection \<open>The constructor and computeSums\<close>

text \<open>\<^verbatim>\<open>computeSums\<close> walks the bins of \<^verbatim>\<open>values\<close> and reads \<^verbatim>\<open>frequencies\<close> at the same
  index. The result is \<open>None\<close> when a sum is \<^verbatim>\<open>NaN\<close>, which here means that a frequency
  was read past the end of its array.\<close>

definition computeSums_loop :: "histogramData \<Rightarrow> number \<times> number" where
  "computeSums_loop h =
     fold (\<lambda>i (s, q).
             (let value = elemAt (values_h h) i;
                  frequency = elemAt (frequencies h) i
              in (jsAdd s (jsMul value frequency),
                  jsAdd q (jsMul (jsMul value value) frequency))))
          [0..<numberOfBins h] (Some 0, Some 0)"

definition computeSums :: "histogramData \<Rightarrow> histogramData option" where
  "computeSums h =
     (case computeSums_loop h of
        (Some s, Some q) \<Rightarrow> Some (h\<lparr>sum_h := s, sumOfSquares := q\<rparr>)
      | _ \<Rightarrow> None)"

text \<open>The constructor with all four arguments. \<^verbatim>\<open>!sum && !sumOfSquares\<close> holds of two
  numbers exactly when both are zero, and then the sums are computed from the bins.\<close>

definition HistogramData :: "real list \<Rightarrow> real list \<Rightarrow> real \<Rightarrow> real \<Rightarrow> histogramData option" where
  "HistogramData vals freqs s q =
     (let this = \<lparr>values_h = vals, frequencies = freqs, sum_h = s, sumOfSquares = q\<rparr>
      in if s = 0 \<and> q = 0 then computeSums this else Some this)"

definition numberOfObservations :: "histogramData \<Rightarrow> real" where
  "numberOfObservations h = foldl (+) 0 (frequencies h)"

subsection \<open>makeWithDataPoints and makeEmpty\<close>

text \<open>One pass over the data points. \<^verbatim>\<open>frequencies[binIndex]++\<close> with a \<^verbatim>\<open>NaN\<close> index
  leaves every array element as it was; an index that \<open>binIndexForDataPoint\<close> returns is
  always below the number of bins.\<close>

definition makeWithDataPoints_loop ::
    "real list \<Rightarrow> real list \<Rightarrow> real list \<times> real \<times> real" where
  "makeWithDataPoints_loop datapoints bvs =
     foldl (\<lambda>(fr, s, q) dataPoint.
              ((case binIndexForDataPoint dataPoint bvs of
                  None \<Rightarrow> fr
                | Some binIndex \<Rightarrow> fr[binIndex := fr ! binIndex + 1]),
               s + dataPoint,
               q + dataPoint * dataPoint))
           (replicate (length bvs) 0, 0, 0) datapoints"

definition makeWithDataPoints :: "real list \<Rightarrow> real list \<Rightarrow> histogramData option" where
  "makeWithDataPoints datapoints bvs =
     (let (fr, s, q) = makeWithDataPoints_loop datapoints bvs
      in HistogramData bvs fr s q)"

definition makeEmpty :: "real list \<Rightarrow> histogramData option" where
  "makeEmpty bvs = HistogramData bvs (replicate (length bvs) 0) 0 0"

subsection \<open>makeByCombiningData\<close>

text \<open>The two strings the source throws.\<close>

datatype error = DifferentSize | DifferentScale

text \<open>\<open>Inl\<close> is a throw. \<open>Inr None\<close> is a returned histogram holding \<^verbatim>\<open>NaN\<close>, from a
  \<^verbatim>\<open>frequencies\<close> array shorter than its \<^verbatim>\<open>values\<close>.\<close>

definition makeByCombiningData ::
    "histogramData \<Rightarrow> histogramData \<Rightarrow> error + histogramData option" where
  "makeByCombiningData h1 h2 =
     (let numberOfBins1 = numberOfBins h1;
          numberOfBins2 = numberOfBins h2
      in if numberOfBins1 \<noteq> numberOfBins2 then Inl DifferentSize
         else
           (let scaleSame =
                  fold (\<lambda>i acc. acc \<and> jsEq (elemAt (values_h h1) i) (elemAt (values_h h2) i))
                       [0..<numberOfBins1] True
            in if \<not> scaleSame then Inl DifferentScale
               else
                 (case those (map (\<lambda>i. jsAdd (elemAt (frequencies h1) i)
                                              (elemAt (frequencies h2) i))
                                 [0..<numberOfBins1]) of
                    None \<Rightarrow> Inr None
                  | Some newFrequencies \<Rightarrow>
                      Inr (HistogramData (values_h h1) newFrequencies
                             (sum_h h1 + sum_h h2)
                             (sumOfSquares h1 + sumOfSquares h2)))))"

subsection \<open>median\<close>

text \<open>The scan over the bins; \<open>nc\<close> turns \<^verbatim>\<open>NaN\<close> once a frequency is read past the end,
  and then no comparison succeeds. The loop ends without a \<^verbatim>\<open>break\<close> with the initial
  \<^verbatim>\<open>median = 0\<close>.\<close>

function median_loop :: "histogramData \<Rightarrow> real \<Rightarrow> real \<Rightarrow> nat \<Rightarrow> number \<Rightarrow> real" where
  "median_loop h R IR i nc =
     (if i < numberOfBins h then
        (let nc' = jsAdd nc (elemAt (frequencies h) i)
         in if jsEq nc' (Some IR) then
              (if i + 1 < numberOfBins h then
                 values_h h ! i + (R - IR) * (values_h h ! (i + 1) - values_h h ! i)
               else values_h h ! i)
            else if jsGt nc' (Some IR) then values_h h ! i
            else median_loop h R IR (i + 1) nc')
      else 0)"
  by pat_completeness auto
termination
  by (relation "measure (\<lambda>(h, R, IR, i, nc). numberOfBins h - i)") auto

definition median :: "histogramData \<Rightarrow> real" where
  "median h =
     (let R = 0.5 * (numberOfObservations h + 1);
          IR = real_of_int \<lfloor>R\<rfloor>
      in median_loop h R IR 0 (Some 0))"

text \<open>The cumulative frequency through bin \<open>i\<close>, and the value that the rank rule of the
  specification assigns to the bin at which the scan stops.\<close>

definition cumulativeFrequency :: "histogramData \<Rightarrow> nat \<Rightarrow> real" where
  "cumulativeFrequency h i = sum_list (take (Suc i) (frequencies h))"

definition rankRule :: "histogramData \<Rightarrow> real \<Rightarrow> real \<Rightarrow> nat \<Rightarrow> real" where
  "rankRule h R IR i =
     (if cumulativeFrequency h i = IR then
        (if i + 1 < numberOfBins h then
           values_h h ! i + (R - IR) * (values_h h ! (i + 1) - values_h h ! i)
         else values_h h ! i)
      else values_h h ! i)"

text \<open>The number of data points that \<open>binIndexForDataPoint\<close> sends to bin \<open>k\<close>, and the
  histograms that \<open>makeByCombiningData\<close> accepts: parallel arrays of equal length on both
  sides and the same bin values.\<close>

definition binCount :: "real list \<Rightarrow> real list \<Rightarrow> nat \<Rightarrow> nat" where
  "binCount datapoints bvs k =
     length (filter (\<lambda>p. binIndexForDataPoint p bvs = Some k) datapoints)"

definition sameShape :: "histogramData \<Rightarrow> histogramData \<Rightarrow> bool" where
  "sameShape a b \<longleftrightarrow>
     length (frequencies a) = numberOfBins a \<and> length (frequencies b) = numberOfBins b
     \<and> values_h a = values_h b"

section \<open>StatisticsFunctions\<close>

text \<open>\<^verbatim>\<open>variance\<close>: one pass for the sum and the sum of squares, then two divisions by the
  number of values.\<close>

definition variance_loop :: "real list \<Rightarrow> real \<times> real" where
  "variance_loop vs = foldl (\<lambda>(s, q) value. (s + value, q + value * value)) (0, 0) vs"

definition variance :: "real list \<Rightarrow> number" where
  "variance vs =
     (let (s, sumOfSq) = variance_loop vs;
          numberOfValues = real (length vs);
          sumSquared = s * s
      in case jsDiv sumSquared numberOfValues of
           None \<Rightarrow> None
         | Some d \<Rightarrow> jsDiv (sumOfSq - d) numberOfValues)"

definition varianceUnbiased :: "real list \<Rightarrow> number" where
  "varianceUnbiased vs =
     (let sampleSize = real (length vs)
      in case variance vs of
           None \<Rightarrow> None
         | Some v \<Rightarrow> jsDiv (v * sampleSize) (sampleSize - 1))"

text \<open>\<^verbatim>\<open>zprob\<close>: twelve terms of the series, with \<open>hh\<close> running from 0.5 in steps of 1.\<close>

definition zprob_loop :: "real \<Rightarrow> real \<times> real" where
  "zprob_loop s =
     fold (\<lambda>i (b, hh). (let a = exp (- hh * hh / 9) * sin (hh * s) / hh in (b + a, hh + 1)))
          [0..<12] (0, 0.5)"

definition zprob :: "real \<Rightarrow> real" where
  "zprob z =
     (if z < - 7 then 0
      else if z > 7 then 1
      else
        (let zNegative = (z < 0);
             z' = \<bar>z\<bar>;
             s = sqrt 2 / 3 * z';
             b = fst (zprob_loop s);
             p = 0.5 - b / pi
         in if zNegative then 1 - p else p))"

section \<open>Sampling\<close>

text \<open>
  \<^verbatim>\<open>Math.random()\<close> is a parameter: \<open>random c\<close> is the number that call number \<open>c\<close> returns,
  and the functions count their calls. The first loop of \<^verbatim>\<open>sample\<close> and of
  \<^verbatim>\<open>sampleMany\<close> builds the table of cumulative frequencies over the bins of \<^verbatim>\<open>values\<close>.
\<close>

definition totals_loop :: "histogramData \<Rightarrow> number \<times> number list" where
  "totals_loop h =
     fold (\<lambda>i (numberOfObs, totals).
             (let numberOfObs' = jsAdd numberOfObs (elemAt (frequencies h) i)
              in (numberOfObs', totals @ [numberOfObs'])))
          [0..<numberOfBins h] (Some 0, [])"

text \<open>\<^verbatim>\<open>Math.round(Math.random() * numberOfObservations)\<close>.\<close>

definition randomIndexOf :: "real \<Rightarrow> number \<Rightarrow> number" where
  "randomIndexOf u numberOfObs =
     (case numberOfObs of None \<Rightarrow> None | Some n \<Rightarrow> Some (real_of_int (Math_round (u * n))))"

text \<open>The scan \<^verbatim>\<open>for (j ...) if (randomIndex <= totals[j]) { ...; break; }\<close>: the first index
  that passes the test, or none.\<close>

fun findBin :: "number \<Rightarrow> number list \<Rightarrow> nat \<Rightarrow> nat option" where
  "findBin randomIndex [] j = None"
| "findBin randomIndex (t # ts) j =
     (if jsLe randomIndex t then Some j else findBin randomIndex ts (Suc j))"

definition sample :: "(nat \<Rightarrow> real) \<Rightarrow> histogramData \<Rightarrow> nat \<Rightarrow> real list" where
  "sample random distribution sampleSize =
     (let (numberOfObs, totals) = totals_loop distribution
      in fold (\<lambda>i sampleData.
                 (let randomIndex = randomIndexOf (random i) numberOfObs
                  in case findBin randomIndex totals 0 of
                       None \<Rightarrow> sampleData
                     | Some j \<Rightarrow> sampleData @ [values_h distribution ! j]))
              [0..<sampleSize] [])"

text \<open>
  \<^verbatim>\<open>parseFloat(value.toFixed(2))\<close>: \<^verbatim>\<open>toFixed\<close> sets the sign aside and takes the integer
  \<open>n\<close> for which \<open>n / 100\<close> is nearest to the absolute value, the larger one on a tie;
  \<^verbatim>\<open>NaN\<close> stays \<^verbatim>\<open>NaN\<close>.
\<close>

fun toFixed2 :: "number \<Rightarrow> number" where
  "toFixed2 None = None"
| "toFixed2 (Some v) =
     (if v < 0 then Some (- (real_of_int \<lfloor>- v * 100 + 1 / 2\<rfloor> / 100))
      else Some (real_of_int \<lfloor>v * 100 + 1 / 2\<rfloor> / 100))"

text \<open>\<^verbatim>\<open>sampleData[i] = x\<close>: an assignment past the end extends the array, and the places
  skipped on the way are holes, which read as \<^verbatim>\<open>undefined\<close>.\<close>

definition setAt :: "number list \<Rightarrow> nat \<Rightarrow> number \<Rightarrow> number list" where
  "setAt xs i x =
     (if i < length xs then xs[i := x] else xs @ replicate (i - length xs) None @ [x])"

text \<open>The state that \<^verbatim>\<open>sampleMany\<close> changes: the number of calls of \<^verbatim>\<open>Math.random\<close> so
  far, the local array \<^verbatim>\<open>sampleData\<close> (kept from one sample to the next), and the log
  \<^verbatim>\<open>this.sampleValues\<close>.\<close>

record samplingState =
  calls :: nat
  sampleData :: "number list"
  sampleValues :: "number list"

definition step2Of :: "histogramData \<Rightarrow> number" where
  "step2Of h =
     (case jsSub (elemAt (values_h h) 1) (elemAt (values_h h) 0) of
        None \<Rightarrow> None
      | Some d \<Rightarrow> Some (d / 2))"

text \<open>One pass of the loop over \<open>i\<close>; \<open>selected\<close> is the value of the selection box that the
  source reads into \<^verbatim>\<open>distribution\<close>.\<close>

definition draw ::
    "(nat \<Rightarrow> real) \<Rightarrow> string \<Rightarrow> histogramData \<Rightarrow> number \<Rightarrow> number list \<Rightarrow> nat
      \<Rightarrow> samplingState \<Rightarrow> samplingState" where
  "draw random selected h numberOfObs totals i st =
     (let randomIndex = randomIndexOf (random (calls st)) numberOfObs;
          st1 = st\<lparr>calls := calls st + 1\<rparr>
      in case findBin randomIndex totals 0 of
           None \<Rightarrow> st1
         | Some j \<Rightarrow>
             (let value0 = Some (values_h h ! j);
                  (value, st2) =
                    (if selected = ''Normal''
                     then (jsAdd value0 (jsMul (Some (random (calls st1) - 0.5)) (step2Of h)),
                           st1\<lparr>calls := calls st1 + 1\<rparr>)
                     else (value0, st1))
              in st2\<lparr>sampleData := setAt (sampleData st2) i (toFixed2 value),
                     sampleValues := sampleValues st2 @ [toFixed2 value]\<rparr>))"

text \<open>\<^verbatim>\<open>sampleMany\<close> returns \<^verbatim>\<open>resultsData\<close>; the model returns the final state with it,
  for the log. \<open>log0\<close> is \<^verbatim>\<open>this.sampleValues\<close> at the call.\<close>

definition sampleMany ::
    "(nat \<Rightarrow> real) \<Rightarrow> string \<Rightarrow> number list \<Rightarrow> histogramData \<Rightarrow> nat \<Rightarrow> nat
      \<Rightarrow> (number list \<Rightarrow> 'r) \<Rightarrow> 'r list \<times> samplingState" where
  "sampleMany random selected log0 h sampleSize numberOfSamples reduceFunction =
     (let (numberOfObs, totals) = totals_loop h
      in fold (\<lambda>sampleIndex (resultsData, st).
                 (let st' = fold (draw random selected h numberOfObs totals) [0..<sampleSize] st;
                      result = reduceFunction (sampleData st')
                  in (resultsData @ [result], st')))
              [0..<numberOfSamples]
              ([], \<lparr>calls = 0, sampleData = [], sampleValues = log0\<rparr>))"

section \<open>Notions used in the statements\<close>

text \<open>A generator that returns the same number at every call.\<close>

definition constRandom :: "real \<Rightarrow> nat \<Rightarrow> real" where
  "constRandom u c = u"

text \<open>The twelve-term series of the specification, as a function of \<open>s\<close>.\<close>

definition zprobSeries :: "real \<Rightarrow> real" where
  "zprobSeries s =
     (\<Sum>k<12. exp (- (1 / 2 + real k) * (1 / 2 + real k) / 9)
                * sin ((1 / 2 + real k) * s) / (1 / 2 + real k))"

text \<open>Rounding to two decimal places: the nearest hundredth, a tie going away from zero.
  On \<^verbatim>\<open>NaN\<close> there is nothing to round.\<close>

definition roundTwoDecimals :: "real \<Rightarrow> real" where
  "roundTwoDecimals v = sgn v * real_of_int (Math_round (100 * \<bar>v\<bar>)) / 100"

definition round2 :: "number \<Rightarrow> number" where
  "round2 v = map_option roundTwoDecimals v"

text \<open>
  The draws of \<^verbatim>\<open>sampleMany\<close> in the words of the specification. The cumulative
  frequency through bin \<open>j\<close> and the total over the bins are numbers, \<^verbatim>\<open>NaN\<close> when the
  array of frequencies is too short. A draw with the random number \<open>u\<close> takes
  \<^verbatim>\<open>r = round(u * total)\<close> and selects the first bin whose cumulative frequency is at least
  \<open>r\<close>, if there is one.
\<close>

definition cumulativeNumber :: "histogramData \<Rightarrow> nat \<Rightarrow> number" where
  "cumulativeNumber h j =
     (if j < length (frequencies h) then Some (cumulativeFrequency h j) else None)"

definition totalNumber :: "histogramData \<Rightarrow> number" where
  "totalNumber h =
     (if numberOfBins h \<le> length (frequencies h)
      then Some (sum_list (take (numberOfBins h) (frequencies h))) else None)"

definition selectedBin :: "histogramData \<Rightarrow> real \<Rightarrow> nat option" where
  "selectedBin h u =
     find (\<lambda>j. jsLe (randomIndexOf u (totalNumber h)) (cumulativeNumber h j))
          [0..<numberOfBins h]"

text \<open>
  \<open>drawsFrom random selected h c is\<close> lists the values drawn at the positions \<open>is\<close> of the
  sample array, in order, each with its position, when \<open>c\<close> random numbers have been used
  before: a draw that selects bin \<open>j\<close> draws \<^verbatim>\<open>values[j]\<close>, with the jitter
  \<^verbatim>\<open>(random() - 0.5) * step / 2\<close> added from the next random number when the selection is
  \<^verbatim>\<open>'Normal'\<close>; a draw that selects no bin draws nothing.
\<close>

fun drawsFrom ::
    "(nat \<Rightarrow> real) \<Rightarrow> string \<Rightarrow> histogramData \<Rightarrow> nat \<Rightarrow> nat list \<Rightarrow> (nat \<times> number) list" where
  "drawsFrom random selected h c [] = []"
| "drawsFrom random selected h c (i # is) =
     (case selectedBin h (random c) of
        None \<Rightarrow> drawsFrom random selected h (c + 1) is
      | Some j \<Rightarrow>
          (if selected = ''Normal''
           then (i, jsAdd (Some (values_h h ! j)) (jsMul (Some (random (c + 1) - 0.5)) (step2Of h)))
                  # drawsFrom random selected h (c + 2) is
           else (i, Some (values_h h ! j)) # drawsFrom random selected h (c + 1) is))"

text \<open>\<open>placed ds sd\<close> is the sample array \<open>sd\<close> after the rounded values of the draws \<open>ds\<close>
  have been stored at their positions, and \<open>positions sampleSize m\<close> are the positions of
  the draws of the first \<open>m\<close> samples.\<close>

definition placed :: "(nat \<times> number) list \<Rightarrow> number list \<Rightarrow> number list" where
  "placed ds sd = fold (\<lambda>(i, v) sd. setAt sd i (round2 v)) ds sd"

definition positions :: "nat \<Rightarrow> nat \<Rightarrow> nat list" where
  "positions sampleSize m = concat (replicate m [0..<sampleSize])"

section \<open>Properties\<close>

declare median_loop.simps [simp del]

lemma variance_loop_sums:
  "foldl (\<lambda>(s, q) value. (s + value, q + value * value)) (a, b) vs
     = (a + sum_list vs, b + sum_list (map (\<lambda>x. x * x) vs))"
  by (induction vs arbitrary: a b) (simp_all add: algebra_simps)

subsection \<open>varianceUnbiased\<close>

lemma variance_value:
  assumes "vs \<noteq> []"
  shows "variance vs =
           Some ((sum_list (map (\<lambda>x. x * x) vs) - (sum_list vs * sum_list vs) / real (length vs))
                   / real (length vs))"
  using assms by (simp add: variance_def variance_loop_def variance_loop_sums jsDiv_def Let_def)

lemma variance_empty: "variance [] = None"
  by (simp add: variance_def variance_loop_def jsDiv_def)

text \<open>
  Claim C7. For two or more values, \<open>variance\<close> is the population formula (sum of squares
  minus the squared sum over n, all over n) and \<open>varianceUnbiased\<close> is that variance times
  n over n - 1. For one value \<open>varianceUnbiased\<close> divides zero by zero, and for no value the
  variance already does: no finite number is returned, and nothing is thrown.
\<close>

theorem varianceUnbiased_spec:
  "(2 \<le> length vs \<longrightarrow>
      (\<exists>v. variance vs = Some v
         \<and> v = (sum_list (map (\<lambda>x. x * x) vs) - (sum_list vs * sum_list vs) / real (length vs))
                 / real (length vs)
         \<and> varianceUnbiased vs = Some (v * real (length vs) / (real (length vs) - 1))))
   \<and> (length vs \<le> 1 \<longrightarrow> varianceUnbiased vs = None)"
proof (intro conjI impI)
  assume n: "2 \<le> length vs"
  then have ne: "vs \<noteq> []" by auto
  from n have "real (length vs) - 1 \<noteq> 0" by simp
  then show "\<exists>v. variance vs = Some v
         \<and> v = (sum_list (map (\<lambda>x. x * x) vs) - (sum_list vs * sum_list vs) / real (length vs))
                 / real (length vs)
         \<and> varianceUnbiased vs = Some (v * real (length vs) / (real (length vs) - 1))"
    by (simp add: variance_value [OF ne] varianceUnbiased_def jsDiv_def Let_def)
next
  assume "length vs \<le> 1"
  then consider "vs = []" | x where "vs = [x]"
    by (cases vs) auto
  then show "varianceUnbiased vs = None"
  proof cases
    case 1
    then show ?thesis by (simp add: varianceUnbiased_def variance_empty)
  next
    case 2
    then show ?thesis by (simp add: varianceUnbiased_def variance_value jsDiv_def)
  qed
qed

theorem varianceUnbiased_spec_witness:
  "2 \<le> length [1, 2, 4 :: real] \<and> variance [1, 2, 4] = Some (14 / 9)
   \<and> varianceUnbiased [1, 2, 4] = Some (7 / 3)
   \<and> varianceUnbiased [5] = None \<and> varianceUnbiased [] = None"
  using varianceUnbiased_spec [of "[1, 2, 4]"] varianceUnbiased_spec [of "[5]"]
    varianceUnbiased_spec [of "[]"]
  by auto

subsection \<open>binIndexForDataPoint\<close>

lemma binIndex_general:
  assumes "2 \<le> length bvs" "bvs ! 1 \<noteq> bvs ! 0"
  shows "binIndexForDataPoint x bvs =
           Some (nat (min (max (Math_round ((x - bvs ! 0) / (bvs ! 1 - bvs ! 0))) 0)
                          (int (length bvs) - 1)))"
  using assms by (cases bvs) (auto simp: binIndexForDataPoint_def elemAt_def Let_def)

lemma binIndex_in_range: "binIndexForDataPoint x bvs = Some k \<Longrightarrow> k < length bvs"
  by (cases bvs)
     (auto simp: binIndexForDataPoint_def elemAt_def Let_def split: if_splits option.splits)

text \<open>
  Claim C8. For a bin set (two or more bin centres with a constant positive step) and any
  real point, \<open>binIndexForDataPoint\<close> returns \<^verbatim>\<open>round((x - values[0]) / step)\<close> clamped to
  the range from 0 to N - 1, so always a valid index. The witness has the two examples of the
  specification: over the bins 0, 1, 2, 3 the point -5 goes to index 0 and 50 to index 3.
\<close>

theorem binIndexForDataPoint_clamped:
  assumes "equalWidthBins bvs"
  shows "\<exists>k. binIndexForDataPoint x bvs = Some k \<and> k < length bvs
           \<and> int k = min (max (Math_round ((x - bvs ! 0) / (bvs ! 1 - bvs ! 0))) 0)
                         (int (length bvs) - 1)"
proof -
  from assms have n: "2 \<le> length bvs" and s: "bvs ! 1 \<noteq> bvs ! 0"
    by (auto simp: equalWidthBins_def)
  let ?k = "nat (min (max (Math_round ((x - bvs ! 0) / (bvs ! 1 - bvs ! 0))) 0)
                     (int (length bvs) - 1))"
  have "binIndexForDataPoint x bvs = Some ?k" by (rule binIndex_general [OF n s])
  moreover have "?k < length bvs" using n by auto
  moreover have "int ?k = min (max (Math_round ((x - bvs ! 0) / (bvs ! 1 - bvs ! 0))) 0)
                              (int (length bvs) - 1)"
    using n by auto
  ultimately show ?thesis by blast
qed

theorem binIndexForDataPoint_clamped_witness:
  "equalWidthBins [0, 1, 2, 3] \<and> binIndexForDataPoint (-5) [0, 1, 2, 3] = Some 0
     \<and> binIndexForDataPoint 50 [0, 1, 2, 3] = Some 3"
proof -
  have e: "equalWidthBins [0, 1, 2, 3]"
    by (simp add: equalWidthBins_def upt_rec nth_Cons')
  from binIndexForDataPoint_clamped [OF e, of "-5"] binIndexForDataPoint_clamped [OF e, of 50]
  show ?thesis using e by (auto simp: Math_round_def)
qed

subsection \<open>makeByCombiningData: the two throws\<close>

lemma foldl_add_sum_list: "foldl (+) a xs = a + sum_list (xs :: real list)"
  by (induction xs arbitrary: a) (simp_all add: algebra_simps)

lemma numberOfObservations_sum_list: "numberOfObservations h = sum_list (frequencies h)"
  by (simp add: numberOfObservations_def foldl_add_sum_list)

lemma scaleSame_fold:
  "fold (\<lambda>i acc. acc \<and> P i) xs b = (b \<and> (\<forall>i\<in>set xs. P i))"
proof (induction xs arbitrary: b)
  case Nil
  show ?case by simp
next
  case (Cons x xs)
  show ?case by (simp only: fold_simps Cons.IH) auto
qed

lemma scaleSame_iff:
  assumes "length xs = length ys"
  shows "fold (\<lambda>i acc. acc \<and> jsEq (elemAt xs i) (elemAt ys i)) [0..<length xs] True \<longleftrightarrow> xs = ys"
proof -
  have "fold (\<lambda>i acc. acc \<and> jsEq (elemAt xs i) (elemAt ys i)) [0..<length xs] True
          = (\<forall>i\<in>set [0..<length xs]. jsEq (elemAt xs i) (elemAt ys i))"
    using scaleSame_fold [of "\<lambda>i. jsEq (elemAt xs i) (elemAt ys i)" "[0..<length xs]" True]
    by simp
  also have "\<dots> = (\<forall>i < length xs. xs ! i = ys ! i)"
    using assms by (auto simp: elemAt_def)
  also have "\<dots> = (xs = ys)"
    using assms by (simp add: list_eq_iff_nth_eq)
  finally show ?thesis .
qed

text \<open>
  Claim C3. \<open>makeByCombiningData\<close> throws exactly when the two histograms differ in shape:
  the error for a different size exactly when the numbers of bins differ, the error for a
  different scale exactly when the numbers agree and the bin values differ at some index.
  The two errors are distinct, and there is a throw if and only if the two lists of bin
  values differ. The witness is the example of the specification, bin values 0, 1, 2 against
  0, 1, 3.
\<close>

theorem combine_shape_mismatch:
  "(makeByCombiningData a b = Inl DifferentSize \<longleftrightarrow> length (values_h a) \<noteq> length (values_h b))
   \<and> (makeByCombiningData a b = Inl DifferentScale \<longleftrightarrow>
        length (values_h a) = length (values_h b)
        \<and> (\<exists>i < length (values_h a). values_h a ! i \<noteq> values_h b ! i))
   \<and> ((\<exists>e. makeByCombiningData a b = Inl e) \<longleftrightarrow> values_h a \<noteq> values_h b)
   \<and> DifferentSize \<noteq> DifferentScale"
proof (cases "length (values_h a) = length (values_h b)")
  case False
  then show ?thesis by (auto simp: makeByCombiningData_def numberOfBins_def)
next
  case True
  note ss = scaleSame_iff [OF True]
  show ?thesis
  proof (cases "values_h a = values_h b")
    case eq: True
    then show ?thesis
      using True ss by (auto simp: makeByCombiningData_def numberOfBins_def Let_def split: option.splits)
  next
    case ne: False
    then have "\<exists>i < length (values_h a). values_h a ! i \<noteq> values_h b ! i"
      using True by (auto simp: list_eq_iff_nth_eq)
    then show ?thesis
      using True ss ne by (auto simp: makeByCombiningData_def numberOfBins_def Let_def)
  qed
qed

theorem combine_shape_mismatch_witness:
  "makeByCombiningData \<lparr>values_h = [0, 1, 2], frequencies = [1, 1, 1], sum_h = 3, sumOfSquares = 5\<rparr>
                       \<lparr>values_h = [0, 1, 3], frequencies = [1, 1, 1], sum_h = 4, sumOfSquares = 10\<rparr>
     = Inl DifferentScale
   \<and> makeByCombiningData \<lparr>values_h = [0, 1, 2], frequencies = [1, 1, 1], sum_h = 3, sumOfSquares = 5\<rparr>
                       \<lparr>values_h = [0, 1], frequencies = [1, 1], sum_h = 1, sumOfSquares = 1\<rparr>
     = Inl DifferentSize"
proof -
  let ?a = "\<lparr>values_h = [0, 1, 2], frequencies = [1, 1, 1], sum_h = 3, sumOfSquares = 5\<rparr>"
  let ?b = "\<lparr>values_h = [0, 1, 3], frequencies = [1, 1, 1], sum_h = 4, sumOfSquares = 10\<rparr>"
  let ?c = "\<lparr>values_h = [0, 1], frequencies = [1, 1], sum_h = 1, sumOfSquares = 1\<rparr>"
  have "(2::nat) < length (values_h ?a) \<and> values_h ?a ! 2 \<noteq> values_h ?b ! 2" by simp
  then have "\<exists>i < length (values_h ?a). values_h ?a ! i \<noteq> values_h ?b ! i" by blast
  then have "makeByCombiningData ?a ?b = Inl DifferentScale"
    using combine_shape_mismatch [of ?a ?b] by simp
  moreover have "makeByCombiningData ?a ?c = Inl DifferentSize"
    using combine_shape_mismatch [of ?a ?c] by simp
  ultimately show ?thesis by simp
qed

subsection \<open>median\<close>

lemma take_Suc_sum:
  "i < length xs \<Longrightarrow> sum_list (take (Suc i) xs) = sum_list (take i xs) + (xs ! i :: real)"
  by (simp add: take_Suc_conv_app_nth)

lemma median_loop_scan:
  assumes wf: "length (frequencies h) = numberOfBins h"
    and "i \<le> j" "j < numberOfBins h"
    and "IR \<le> cumulativeFrequency h j"
    and "\<forall>k. i \<le> k \<and> k < j \<longrightarrow> cumulativeFrequency h k < IR"
  shows "median_loop h R IR i (Some (sum_list (take i (frequencies h)))) = rankRule h R IR j"
  using assms(2-)
proof (induction "j - i" arbitrary: i)
  case 0
  then have ij: "i = j" by simp
  have nc: "jsAdd (Some (sum_list (take j (frequencies h)))) (elemAt (frequencies h) j)
              = Some (cumulativeFrequency h j)"
    using 0 wf by (simp add: elemAt_def cumulativeFrequency_def take_Suc_sum)
  show ?case
    unfolding ij
    apply (subst median_loop.simps)
    using 0 nc by (auto simp: rankRule_def Let_def)
next
  case (Suc d)
  then have lt: "i < j" by simp
  have nc: "jsAdd (Some (sum_list (take i (frequencies h)))) (elemAt (frequencies h) i)
              = Some (cumulativeFrequency h i)"
    using Suc.prems lt wf by (simp add: elemAt_def cumulativeFrequency_def take_Suc_sum)
  have small: "cumulativeFrequency h i < IR" using Suc.prems lt by simp
  have "median_loop h R IR (Suc i) (Some (sum_list (take (Suc i) (frequencies h)))) = rankRule h R IR j"
    using Suc.hyps(1)[of "Suc i"] Suc.hyps(2) Suc.prems lt by simp
  then have IH: "median_loop h R IR (Suc i) (Some (cumulativeFrequency h i)) = rankRule h R IR j"
    by (simp add: cumulativeFrequency_def)
  have i: "i < numberOfBins h" using lt Suc.prems by simp
  show ?case
    apply (subst median_loop.simps)
    using i nc small IH by (simp add: Let_def)
qed

lemma median_first_bin:
  assumes wf: "length (frequencies h) = numberOfBins h"
    and n: "0 \<le> numberOfObservations h" and bins: "0 < numberOfBins h"
  shows "\<exists>i < numberOfBins h.
           (\<forall>k < i. cumulativeFrequency h k < real_of_int \<lfloor>0.5 * (numberOfObservations h + 1)\<rfloor>)
         \<and> real_of_int \<lfloor>0.5 * (numberOfObservations h + 1)\<rfloor> \<le> cumulativeFrequency h i
         \<and> median h = rankRule h (0.5 * (numberOfObservations h + 1))
                         (real_of_int \<lfloor>0.5 * (numberOfObservations h + 1)\<rfloor>) i"
proof -
  let ?n = "numberOfObservations h"
  let ?R = "0.5 * (?n + 1)"
  let ?IR = "real_of_int \<lfloor>?R\<rfloor>"
  let ?P = "\<lambda>k. ?IR \<le> cumulativeFrequency h k"
  have last: "cumulativeFrequency h (numberOfBins h - 1) = ?n"
    using wf bins by (simp add: cumulativeFrequency_def numberOfObservations_sum_list)
  have "?IR \<le> ?n"
  proof (cases "1 \<le> ?n")
    case True
    have "?IR \<le> ?R" by (rule of_int_floor_le)
    also have "?R \<le> ?n" using True by simp
    finally show ?thesis .
  next
    case False
    then have "\<lfloor>?R\<rfloor> = 0" using n by (intro floor_unique) auto
    then show ?thesis using n by simp
  qed
  then have ex: "?P (numberOfBins h - 1)" using last by simp
  define j where "j = (LEAST k. ?P k)"
  have Pj: "?P j" unfolding j_def using ex by (rule LeastI)
  have jle: "j \<le> numberOfBins h - 1" unfolding j_def using ex by (rule Least_le)
  then have jlt: "j < numberOfBins h" using bins by simp
  have before: "\<forall>k < j. cumulativeFrequency h k < ?IR"
  proof (intro allI impI)
    fix k assume "k < j"
    then have "\<not> ?P k" unfolding j_def by (rule not_less_Least)
    then show "cumulativeFrequency h k < ?IR" by simp
  qed
  have "median_loop h ?R ?IR 0 (Some (sum_list (take 0 (frequencies h)))) = rankRule h ?R ?IR j"
    using before by (intro median_loop_scan [OF wf _ jlt Pj]) auto
  then have "median h = rankRule h ?R ?IR j" by (simp add: median_def Let_def)
  with jlt before Pj show ?thesis by blast
qed

text \<open>
  Claim C4. For a histogram whose two arrays have the same length and which holds at least
  one observation, with n the number of observations, R = 0.5 (n + 1) and IR = floor R:
  the scan stops at the first bin \<open>i\<close> whose cumulative frequency reaches IR (every earlier
  bin is below IR), and \<open>median\<close> is the value of the rank rule there: if the cumulative
  frequency equals IR, the interpolation \<^verbatim>\<open>values[i] + (R - IR) * (values[i+1] - values[i])\<close>,
  or \<^verbatim>\<open>values[i]\<close> in the last bin; if it exceeds IR, \<^verbatim>\<open>values[i]\<close>.
\<close>

theorem median_rank_rule:
  assumes "length (frequencies h) = numberOfBins h" and "1 \<le> numberOfObservations h"
  shows "\<exists>i < numberOfBins h.
           (\<forall>k < i. cumulativeFrequency h k < real_of_int \<lfloor>0.5 * (numberOfObservations h + 1)\<rfloor>)
         \<and> real_of_int \<lfloor>0.5 * (numberOfObservations h + 1)\<rfloor> \<le> cumulativeFrequency h i
         \<and> median h = rankRule h (0.5 * (numberOfObservations h + 1))
                         (real_of_int \<lfloor>0.5 * (numberOfObservations h + 1)\<rfloor>) i"
proof -
  have "0 < numberOfBins h"
  proof (rule ccontr)
    assume "\<not> 0 < numberOfBins h"
    then have "frequencies h = []" using assms(1) by simp
    then show False using assms(2) by (simp add: numberOfObservations_sum_list)
  qed
  then show ?thesis using assms by (intro median_first_bin) auto
qed

theorem median_rank_rule_witness:
  "length (frequencies \<lparr>values_h = [1, 2, 3], frequencies = [1, 1, 0], sum_h = 3, sumOfSquares = 5\<rparr>)
     = numberOfBins \<lparr>values_h = [1, 2, 3], frequencies = [1, 1, 0], sum_h = 3, sumOfSquares = 5\<rparr>
   \<and> 1 \<le> numberOfObservations
            \<lparr>values_h = [1, 2, 3], frequencies = [1, 1, 0], sum_h = 3, sumOfSquares = 5\<rparr>
   \<and> median \<lparr>values_h = [1, 2, 3], frequencies = [1, 1, 0], sum_h = 3, sumOfSquares = 5\<rparr> = 3 / 2"
proof -
  let ?h = "\<lparr>values_h = [1, 2, 3], frequencies = [1, 1, 0], sum_h = 3, sumOfSquares = 5\<rparr>"
  have wf: "length (frequencies ?h) = numberOfBins ?h" by (simp add: numberOfBins_def)
  have n: "numberOfObservations ?h = 2" by (simp add: numberOfObservations_def)
  then have one: "1 \<le> numberOfObservations ?h" by simp
  have "\<lfloor>0.5 * (numberOfObservations ?h + 1)\<rfloor> = 1" unfolding n by (rule floor_unique) auto
  then have IR: "real_of_int \<lfloor>0.5 * (numberOfObservations ?h + 1)\<rfloor> = 1" by (simp only: of_int_1)
  have c0: "cumulativeFrequency ?h 0 = 1" by (simp add: cumulativeFrequency_def)
  from median_rank_rule [OF wf one] obtain i where i: "i < numberOfBins ?h"
    and before: "\<forall>k < i. cumulativeFrequency ?h k < real_of_int \<lfloor>0.5 * (numberOfObservations ?h + 1)\<rfloor>"
    and m: "median ?h = rankRule ?h (0.5 * (numberOfObservations ?h + 1))
                          (real_of_int \<lfloor>0.5 * (numberOfObservations ?h + 1)\<rfloor>) i"
    by blast
  have "i = 0"
  proof (rule ccontr)
    assume "i \<noteq> 0"
    then have "cumulativeFrequency ?h 0 < real_of_int \<lfloor>0.5 * (numberOfObservations ?h + 1)\<rfloor>"
      using before by simp
    then show False unfolding c0 IR by simp
  qed
  then have "median ?h = rankRule ?h (0.5 * (2 + 1)) 1 0"
    using m unfolding IR n by simp
  then have "median ?h = 3 / 2"
    using c0 by (simp add: rankRule_def numberOfBins_def)
  with wf one show ?thesis by blast
qed

text \<open>
  Claim C10. For a histogram with at least two bins whose frequencies are all zero, the
  number of observations is 0 and \<open>median\<close> returns
  \<^verbatim>\<open>values[0] + 0.5 * (values[1] - values[0])\<close>, half a step above the first bin centre:
  IR is 0 and the cumulative frequency equals it at the first bin.
\<close>

theorem median_empty:
  assumes "length (frequencies h) = numberOfBins h" and "2 \<le> numberOfBins h"
    and "\<forall>f \<in> set (frequencies h). f = 0"
  shows "numberOfObservations h = 0
       \<and> median h = values_h h ! 0 + 0.5 * (values_h h ! 1 - values_h h ! 0)"
proof -
  have fr: "frequencies h = replicate (numberOfBins h) 0"
    using assms(1,3) by (metis replicate_length_same)
  then have n0: "numberOfObservations h = 0"
    by (simp add: numberOfObservations_sum_list sum_list_replicate)
  have e0: "elemAt (frequencies h) 0 = Some 0"
    using assms(2) fr by (simp add: elemAt_def)
  have "median h = values_h h ! 0 + 0.5 * (values_h h ! 1 - values_h h ! 0)"
    unfolding median_def n0
    apply (simp add: Let_def)
    apply (subst median_loop.simps)
    using assms(2) e0 by (simp add: Let_def)
  with n0 show ?thesis by simp
qed

theorem median_empty_witness:
  "numberOfObservations \<lparr>values_h = [2, 4, 6], frequencies = [0, 0, 0], sum_h = 0, sumOfSquares = 0\<rparr> = 0
   \<and> median \<lparr>values_h = [2, 4, 6], frequencies = [0, 0, 0], sum_h = 0, sumOfSquares = 0\<rparr> = 3"
  using median_empty
    [of "\<lparr>values_h = [2, 4, 6], frequencies = [0, 0, 0], sum_h = 0, sumOfSquares = 0\<rparr>"]
  by (simp add: numberOfBins_def)

subsection \<open>The constructor\<close>

lemma computeSums_loop_prefix:
  assumes "k \<le> length vs" "length fs = length vs"
  shows "fold (\<lambda>i (s, q).
             (let value = elemAt vs i; frequency = elemAt fs i
              in (jsAdd s (jsMul value frequency),
                  jsAdd q (jsMul (jsMul value value) frequency))))
          [0..<k] (Some 0, Some 0)
         = (Some (\<Sum>i<k. vs ! i * fs ! i), Some (\<Sum>i<k. vs ! i * vs ! i * fs ! i))"
  using assms(1)
proof (induction k)
  case 0
  show ?case by simp
next
  case (Suc k)
  then have "k < length vs" "k < length fs" using assms(2) by simp_all
  then show ?case using Suc by (simp add: elemAt_def Let_def)
qed

lemma computeSums_wf:
  assumes "length (frequencies h) = numberOfBins h"
  shows "computeSums h =
           Some (h\<lparr>sum_h := (\<Sum>i<numberOfBins h. values_h h ! i * frequencies h ! i),
                   sumOfSquares := (\<Sum>i<numberOfBins h. values_h h ! i * values_h h ! i * frequencies h ! i)\<rparr>)"
  using computeSums_loop_prefix [of "numberOfBins h" "values_h h" "frequencies h"] assms
  by (simp add: computeSums_def computeSums_loop_def numberOfBins_def)

lemma HistogramData_wf:
  assumes "length freqs = length vals"
  shows "\<exists>h. HistogramData vals freqs s q = Some h \<and> values_h h = vals \<and> frequencies h = freqs
           \<and> (if s = 0 \<and> q = 0
               then sum_h h = (\<Sum>i<length vals. vals ! i * freqs ! i)
                  \<and> sumOfSquares h = (\<Sum>i<length vals. vals ! i * vals ! i * freqs ! i)
               else sum_h h = s \<and> sumOfSquares h = q)"
proof -
  let ?this = "\<lparr>values_h = vals, frequencies = freqs, sum_h = s, sumOfSquares = q\<rparr>"
  have "length (frequencies ?this) = numberOfBins ?this" using assms by (simp add: numberOfBins_def)
  from computeSums_wf [OF this] show ?thesis
    by (auto simp: HistogramData_def Let_def numberOfBins_def)
qed

subsection \<open>makeWithDataPoints\<close>

lemma makeWithDataPoints_foldl:
  "\<exists>fr'. foldl (\<lambda>(fr, s, q) dataPoint.
              ((case binIndexForDataPoint dataPoint bvs of
                  None \<Rightarrow> fr
                | Some binIndex \<Rightarrow> fr[binIndex := fr ! binIndex + 1]),
               s + dataPoint,
               q + dataPoint * dataPoint))
           (fr, s, q) pts
        = (fr', s + sum_list pts, q + sum_list (map (\<lambda>x. x * x) pts))
      \<and> length fr' = length fr
      \<and> (\<forall>k < length fr. fr' ! k = fr ! k + real (binCount pts bvs k))"
proof (induction pts arbitrary: fr s q)
  case Nil
  show ?case by (simp add: binCount_def)
next
  case (Cons p pts)
  let ?fr1 = "case binIndexForDataPoint p bvs of None \<Rightarrow> fr
              | Some binIndex \<Rightarrow> fr[binIndex := fr ! binIndex + 1]"
  have len1: "length ?fr1 = length fr" by (simp split: option.splits)
  have nth1: "\<forall>k < length fr. ?fr1 ! k = fr ! k + (if binIndexForDataPoint p bvs = Some k then 1 else 0)"
    by (auto split: option.splits simp: nth_list_update)
  from Cons.IH [of ?fr1 "s + p" "q + p * p"] obtain fr' where
    f: "foldl (\<lambda>(fr, s, q) dataPoint.
              ((case binIndexForDataPoint dataPoint bvs of
                  None \<Rightarrow> fr
                | Some binIndex \<Rightarrow> fr[binIndex := fr ! binIndex + 1]),
               s + dataPoint,
               q + dataPoint * dataPoint))
           (?fr1, s + p, q + p * p) pts
        = (fr', s + p + sum_list pts, q + p * p + sum_list (map (\<lambda>x. x * x) pts))"
    and l: "length fr' = length ?fr1"
    and n: "\<forall>k < length ?fr1. fr' ! k = ?fr1 ! k + real (binCount pts bvs k)"
    by blast
  have "\<forall>k < length fr. fr' ! k = fr ! k + real (binCount (p # pts) bvs k)"
    using n nth1 len1 by (auto simp: binCount_def)
  then show ?case using f l len1 by (auto simp: algebra_simps)
qed

lemma binCount_total:
  assumes "2 \<le> length bvs" "bvs ! 1 \<noteq> bvs ! 0"
  shows "(\<Sum>k<length bvs. binCount pts bvs k) = length pts"
proof (induction pts)
  case Nil
  show ?case by (simp add: binCount_def)
next
  case (Cons p pts)
  from binIndex_general [OF assms, of p] obtain j where j: "binIndexForDataPoint p bvs = Some j"
    by blast
  then have jl: "j < length bvs" by (rule binIndex_in_range)
  have "(\<Sum>k<length bvs. binCount (p # pts) bvs k)
          = (\<Sum>k<length bvs. binCount pts bvs k + (if k = j then 1 else 0))"
    using j by (intro sum.cong) (auto simp: binCount_def)
  also have "\<dots> = (\<Sum>k<length bvs. binCount pts bvs k) + (\<Sum>k<length bvs. if k = j then 1 else 0)"
    by (simp add: sum.distrib)
  also have "(\<Sum>k<length bvs. if k = j then 1 else 0) = (1::nat)"
    using jl by simp
  finally show ?case using Cons by simp
qed

lemma sum_list_nth_sum: "sum_list (xs :: real list) = (\<Sum>i<length xs. xs ! i)"
  by (simp add: sum_list_sum_nth atLeast0LessThan)

lemma makeWithDataPoints_result:
  assumes "2 \<le> length bvs" "bvs ! 1 \<noteq> bvs ! 0"
  shows "\<exists>h. makeWithDataPoints pts bvs = Some h
           \<and> values_h h = bvs
           \<and> length (frequencies h) = length bvs
           \<and> (\<forall>k < length bvs. frequencies h ! k = real (binCount pts bvs k))
           \<and> numberOfObservations h = real (length pts)
           \<and> (sum_list pts \<noteq> 0 \<or> sum_list (map (\<lambda>x. x * x) pts) \<noteq> 0 \<longrightarrow>
                sum_h h = sum_list pts \<and> sumOfSquares h = sum_list (map (\<lambda>x. x * x) pts))"
proof -
  from makeWithDataPoints_foldl [of bvs "replicate (length bvs) 0" 0 0 pts]
  obtain fr where loop: "makeWithDataPoints_loop pts bvs
                           = (fr, sum_list pts, sum_list (map (\<lambda>x. x * x) pts))"
    and len: "length fr = length bvs"
    and nth: "\<forall>k < length bvs. fr ! k = real (binCount pts bvs k)"
    by (auto simp: makeWithDataPoints_loop_def)
  from HistogramData_wf [OF len, of "sum_list pts" "sum_list (map (\<lambda>x. x * x) pts)"]
  obtain h where h: "HistogramData bvs fr (sum_list pts) (sum_list (map (\<lambda>x. x * x) pts)) = Some h"
    and v: "values_h h = bvs" and f: "frequencies h = fr"
    and s: "if sum_list pts = 0 \<and> sum_list (map (\<lambda>x. x * x) pts) = 0
            then sum_h h = (\<Sum>i<length bvs. bvs ! i * fr ! i)
               \<and> sumOfSquares h = (\<Sum>i<length bvs. bvs ! i * bvs ! i * fr ! i)
            else sum_h h = sum_list pts \<and> sumOfSquares h = sum_list (map (\<lambda>x. x * x) pts)"
    by blast
  have "numberOfObservations h = (\<Sum>k<length bvs. fr ! k)"
    using f len by (simp add: numberOfObservations_sum_list sum_list_nth_sum)
  also have "\<dots> = (\<Sum>k<length bvs. real (binCount pts bvs k))"
    using nth by simp
  also have "\<dots> = real (\<Sum>k<length bvs. binCount pts bvs k)" by simp
  also have "\<dots> = real (length pts)" by (simp only: binCount_total [OF assms])
  finally have n: "numberOfObservations h = real (length pts)" .
  have "makeWithDataPoints pts bvs = Some h"
    using loop h by (simp add: makeWithDataPoints_def)
  then show ?thesis using v f len nth n s by (intro exI [of _ h]) auto
qed

text \<open>
  Claim C6 asks that the histogram built from raw points carries the sum of the raw points
  and the sum of their squares, not sums recomputed from the bins. \<open>makeWithDataPoints_result\<close>
  shows the frequencies and the number of observations as claimed, and the raw sums whenever
  they are not both zero. When they are both zero the constructor takes the two zeros for
  absent arguments and recomputes: the single point 0 over the bins 1, 2, 3 is clamped into
  the first bin, and the histogram comes back with sum 1 and sum of squares 1, while the raw
  sums are 0 and 0.
\<close>

theorem makeWithDataPoints_zero_sums:
  "makeWithDataPoints [0] [1, 2, 3]
     = Some \<lparr>values_h = [1, 2, 3], frequencies = [1, 0, 0], sum_h = 1, sumOfSquares = 1\<rparr>
   \<and> equalWidthBins [1, 2, 3]
   \<and> sum_list [0 :: real] = 0 \<and> sum_list (map (\<lambda>x. x * x) [0 :: real]) = 0"
  by (simp add: makeWithDataPoints_def makeWithDataPoints_loop_def binIndexForDataPoint_def
      elemAt_def Math_round_def HistogramData_def computeSums_def computeSums_loop_def
      numberOfBins_def equalWidthBins_def upt_rec nth_Cons' Let_def)

subsection \<open>makeByCombiningData: the combined histogram\<close>

lemma those_map_Some: "those (map (\<lambda>i. Some (g i)) xs) = Some (map g xs)"
  by (induction xs) simp_all

lemma newFrequencies_wf:
  assumes "length fa = n" "length fb = n"
  shows "those (map (\<lambda>i. jsAdd (elemAt fa i) (elemAt fb i)) [0..<n])
           = Some (map (\<lambda>(x, y). x + y) (zip fa fb))"
proof -
  have "map (\<lambda>i. jsAdd (elemAt fa i) (elemAt fb i)) [0..<n] = map (\<lambda>i. Some (fa ! i + fb ! i)) [0..<n]"
    using assms by (simp add: elemAt_def)
  then have "those (map (\<lambda>i. jsAdd (elemAt fa i) (elemAt fb i)) [0..<n])
               = Some (map (\<lambda>i. fa ! i + fb ! i) [0..<n])"
    by (simp only: those_map_Some)
  moreover have "map (\<lambda>i. fa ! i + fb ! i) [0..<n] = map (\<lambda>(x, y). x + y) (zip fa fb)"
    using assms by (intro nth_equalityI) simp_all
  ultimately show ?thesis by simp
qed

lemma sum_list_zip_add:
  "length xs = length ys \<Longrightarrow>
     sum_list (map (\<lambda>(x, y). x + y) (zip xs ys)) = sum_list xs + sum_list (ys :: real list)"
  by (induction xs ys rule: list_induct2) simp_all

lemma combine_result:
  assumes "sameShape a b"
  shows "\<exists>c. makeByCombiningData a b = Inr (Some c)
           \<and> values_h c = values_h a
           \<and> frequencies c = map (\<lambda>(x, y). x + y) (zip (frequencies a) (frequencies b))
           \<and> length (frequencies c) = numberOfBins c
           \<and> numberOfObservations c = numberOfObservations a + numberOfObservations b
           \<and> (sum_h a + sum_h b \<noteq> 0 \<or> sumOfSquares a + sumOfSquares b \<noteq> 0 \<longrightarrow>
                sum_h c = sum_h a + sum_h b
                \<and> sumOfSquares c = sumOfSquares a + sumOfSquares b)"
proof -
  let ?n = "numberOfBins a"
  let ?fs = "map (\<lambda>(x, y). x + y) (zip (frequencies a) (frequencies b))"
  from assms have la: "length (frequencies a) = ?n" and lb: "length (frequencies b) = ?n"
    and v: "values_h a = values_h b"
    by (simp_all add: sameShape_def numberOfBins_def)
  have n: "numberOfBins b = ?n" using v by (simp add: numberOfBins_def)
  have ss: "fold (\<lambda>i acc. acc \<and> jsEq (elemAt (values_h a) i) (elemAt (values_h b) i)) [0..<?n] True"
    using scaleSame_iff [of "values_h a" "values_h b"] v by (simp add: numberOfBins_def)
  have len: "length ?fs = length (values_h a)" using la lb by (simp add: numberOfBins_def)
  from HistogramData_wf [OF len, of "sum_h a + sum_h b" "sumOfSquares a + sumOfSquares b"]
  obtain c where c: "HistogramData (values_h a) ?fs (sum_h a + sum_h b)
                        (sumOfSquares a + sumOfSquares b) = Some c"
    and cv: "values_h c = values_h a" and cf: "frequencies c = ?fs"
    and cs: "if sum_h a + sum_h b = 0 \<and> sumOfSquares a + sumOfSquares b = 0
             then sum_h c = (\<Sum>i<length (values_h a). values_h a ! i * ?fs ! i)
                \<and> sumOfSquares c = (\<Sum>i<length (values_h a). values_h a ! i * values_h a ! i * ?fs ! i)
             else sum_h c = sum_h a + sum_h b \<and> sumOfSquares c = sumOfSquares a + sumOfSquares b"
    by blast
  have "makeByCombiningData a b = Inr (Some c)"
    using n ss c newFrequencies_wf [OF la lb] by (simp add: makeByCombiningData_def Let_def)
  moreover have "numberOfObservations c = numberOfObservations a + numberOfObservations b"
    using cf la lb by (simp add: numberOfObservations_sum_list sum_list_zip_add)
  moreover have "length (frequencies c) = numberOfBins c"
    using cf cv len by (simp add: numberOfBins_def)
  ultimately show ?thesis using cv cf cs by (intro exI [of _ c]) auto
qed

lemma combine_counts_commute:
  assumes "sameShape a b"
  shows "\<exists>ab ba. makeByCombiningData a b = Inr (Some ab) \<and> makeByCombiningData b a = Inr (Some ba)
           \<and> numberOfObservations ab = numberOfObservations ba"
proof -
  from assms have "sameShape b a" by (simp add: sameShape_def)
  from combine_result [OF assms] combine_result [OF this] show ?thesis by fastforce
qed

lemma combine_counts_assoc:
  assumes "sameShape a b" "sameShape b c"
  shows "\<exists>ab bc l r. makeByCombiningData a b = Inr (Some ab) \<and> makeByCombiningData b c = Inr (Some bc)
           \<and> makeByCombiningData ab c = Inr (Some l) \<and> makeByCombiningData a bc = Inr (Some r)
           \<and> numberOfObservations l = numberOfObservations r"
proof -
  from combine_result [OF assms(1)] obtain ab where ab: "makeByCombiningData a b = Inr (Some ab)"
    and abv: "values_h ab = values_h a" and abw: "length (frequencies ab) = numberOfBins ab"
    and abn: "numberOfObservations ab = numberOfObservations a + numberOfObservations b" by blast
  from combine_result [OF assms(2)] obtain bc where bc: "makeByCombiningData b c = Inr (Some bc)"
    and bcv: "values_h bc = values_h b" and bcw: "length (frequencies bc) = numberOfBins bc"
    and bcn: "numberOfObservations bc = numberOfObservations b + numberOfObservations c" by blast
  have "sameShape ab c" using assms abv abw by (simp add: sameShape_def)
  from combine_result [OF this] obtain l where l: "makeByCombiningData ab c = Inr (Some l)"
    and ln: "numberOfObservations l = numberOfObservations ab + numberOfObservations c" by blast
  have "sameShape a bc" using assms bcv bcw by (simp add: sameShape_def)
  from combine_result [OF this] obtain r where r: "makeByCombiningData a bc = Inr (Some r)"
    and rn: "numberOfObservations r = numberOfObservations a + numberOfObservations bc" by blast
  have "numberOfObservations l = numberOfObservations r" using ln rn abn bcn by simp
  with ab bc l r show ?thesis by blast
qed

text \<open>
  Claim C2 asks that the combined histogram has the element-wise summed frequencies, the
  summed cached sums, and a number of observations that adds up, commutatively and
  associatively. \<open>combine_result\<close>, \<open>combine_counts_commute\<close> and \<open>combine_counts_assoc\<close>
  show all of it except the cached sums when both totals are zero: the constructor then
  recomputes them from the bins. A histogram holding the one raw observation 0 in the first
  of the bins 1, 2, 3 (cached sums 0 and 0), combined with the empty histogram over the same
  bins, comes back with sum 1 and sum of squares 1 instead of 0 and 0.
\<close>

theorem combine_zero_sums:
  "makeByCombiningData
      \<lparr>values_h = [1, 2, 3], frequencies = [1, 0, 0], sum_h = 0, sumOfSquares = 0\<rparr>
      \<lparr>values_h = [1, 2, 3], frequencies = [0, 0, 0], sum_h = 0, sumOfSquares = 0\<rparr>
     = Inr (Some \<lparr>values_h = [1, 2, 3], frequencies = [1, 0, 0], sum_h = 1, sumOfSquares = 1\<rparr>)
   \<and> makeEmpty [1, 2, 3]
     = Some \<lparr>values_h = [1, 2, 3], frequencies = [0, 0, 0], sum_h = 0, sumOfSquares = 0\<rparr>"
  by (simp add: makeByCombiningData_def makeEmpty_def elemAt_def HistogramData_def
      computeSums_def computeSums_loop_def numberOfBins_def upt_rec nth_Cons' Let_def)

subsection \<open>sample\<close>

lemma totals_loop_prefix:
  assumes "k \<le> length fs"
  shows "fold (\<lambda>i (numberOfObs, totals).
             (let numberOfObs' = jsAdd numberOfObs (elemAt fs i)
              in (numberOfObs', totals @ [numberOfObs'])))
          [0..<k] (Some 0, [])
         = (Some (sum_list (take k fs)), map (\<lambda>i. Some (sum_list (take (Suc i) fs))) [0..<k])"
  using assms
proof (induction k)
  case 0
  show ?case by simp
next
  case (Suc k)
  then have k: "k < length fs" by simp
  then show ?case using Suc by (simp add: elemAt_def Let_def take_Suc_conv_app_nth)
qed

lemma totals_loop_wf:
  assumes "length (frequencies h) = numberOfBins h"
  shows "totals_loop h = (Some (numberOfObservations h),
                          map (\<lambda>i. Some (cumulativeFrequency h i)) [0..<numberOfBins h])"
  using totals_loop_prefix [of "numberOfBins h" "frequencies h"] assms
  by (simp add: totals_loop_def numberOfObservations_sum_list cumulativeFrequency_def)

lemma findBin_Some:
  "findBin r ts j0 = Some j \<Longrightarrow>
     j0 \<le> j \<and> j < j0 + length ts \<and> jsLe r (ts ! (j - j0)) \<and> (\<forall>k < j - j0. \<not> jsLe r (ts ! k))"
proof (induction ts arbitrary: j0)
  case Nil
  then show ?case by simp
next
  case (Cons t ts)
  show ?case
  proof (cases "jsLe r t")
    case True
    with Cons.prems show ?thesis by simp
  next
    case False
    with Cons.prems have "findBin r ts (Suc j0) = Some j" by simp
    from Cons.IH [OF this] have a: "Suc j0 \<le> j" and b: "j < Suc j0 + length ts"
      and c: "jsLe r (ts ! (j - Suc j0))" and d: "\<forall>k < j - Suc j0. \<not> jsLe r (ts ! k)"
      by simp_all
    from a have e: "j - j0 = Suc (j - Suc j0)" by simp
    have "\<forall>k < j - j0. \<not> jsLe r ((t # ts) ! k)"
    proof (intro allI impI)
      fix k assume "k < j - j0"
      then show "\<not> jsLe r ((t # ts) ! k)" using False d e by (cases k) simp_all
    qed
    then show ?thesis using a b c e by simp
  qed
qed

lemma findBin_Some0:
  assumes "findBin r ts 0 = Some j"
  shows "j < length ts" and "jsLe r (ts ! j)" and "\<forall>k < j. \<not> jsLe r (ts ! k)"
  using findBin_Some [OF assms] by simp_all

lemma findBin_finds:
  "\<exists>k < length ts. jsLe r (ts ! k) \<Longrightarrow> \<exists>j. findBin r ts j0 = Some j"
proof (induction ts arbitrary: j0)
  case Nil
  then show ?case by simp
next
  case (Cons t ts)
  show ?case
  proof (cases "jsLe r t")
    case True
    then show ?thesis by simp
  next
    case False
    from Cons.prems obtain k where k: "k < length (t # ts)" "jsLe r ((t # ts) ! k)" by blast
    with False obtain k' where "k = Suc k'" by (cases k) auto
    with k have "\<exists>k < length ts. jsLe r (ts ! k)" by auto
    from Cons.IH [OF this] show ?thesis using False by simp
  qed
qed

lemma sample_fold_all_found:
  assumes "\<And>i. \<exists>j. pick i = Some j"
  shows "fold (\<lambda>i sampleData. (case pick i of None \<Rightarrow> sampleData
                                | Some j \<Rightarrow> sampleData @ [vs ! j]))
              [0..<n] []
         = map (\<lambda>i. vs ! the (pick i)) [0..<n]"
proof (induction n)
  case 0
  show ?case by simp
next
  case (Suc n)
  from assms [of n] obtain j where "pick n = Some j" by blast
  then show ?case using Suc by simp
qed

lemma sum_list_Ints: "\<forall>f \<in> set fs. f \<in> \<int> \<Longrightarrow> sum_list (fs :: real list) \<in> \<int>"
  by (induction fs) auto

lemma sum_list_nonneg': "\<forall>f \<in> set fs. 0 \<le> f \<Longrightarrow> 0 \<le> sum_list (fs :: real list)"
  by (induction fs) auto

lemma round_within_total:
  assumes "n \<in> \<int>" "0 \<le> n" "0 \<le> u" "u < 1"
  shows "0 \<le> Math_round (u * n) \<and> real_of_int (Math_round (u * n)) \<le> n"
proof -
  from assms(1) obtain m :: int where m: "n = of_int m" by (auto elim: Ints_cases)
  have "u * n \<le> n" using assms by (simp add: mult_left_le_one_le)
  then have "u * n + 1 / 2 < of_int (m + 1)" using m by simp
  then have "\<lfloor>u * n + 1 / 2\<rfloor> < m + 1" by (simp only: floor_less_iff)
  then have up: "Math_round (u * n) \<le> m" by (simp add: Math_round_def)
  have "0 \<le> u * n + 1 / 2" using assms by simp
  then have "0 \<le> \<lfloor>u * n + 1 / 2\<rfloor>" by simp
  then show ?thesis using up m by (simp add: Math_round_def)
qed

text \<open>
  Claim C5, amended. For a histogram with parallel arrays of equal length, at least two bins
  and frequencies that are non-negative whole numbers, and a generator with values in [0, 1),
  \<open>sample\<close> returns exactly \<open>n\<close> values. Draw \<open>i\<close> takes
  \<^verbatim>\<open>r = round(random() * total)\<close>, which lies between 0 and the total inclusive, and emits
  \<^verbatim>\<open>values[j]\<close> unmodified for the first index \<open>j\<close> whose cumulative frequency is at least \<open>r\<close>.
  The claim as stated allows any non-negative frequencies; with fractional ones a draw can
  select no bin, as the counterexample after the witness shows.
\<close>

theorem sample_counts:
  assumes wf: "length (frequencies h) = numberOfBins h"
    and bins: "2 \<le> numberOfBins h"
    and freq: "\<forall>f \<in> set (frequencies h). 0 \<le> f \<and> f \<in> \<int>"
    and rnd: "\<forall>c. 0 \<le> random c \<and> random c < 1"
  shows "length (sample random h n) = n
       \<and> (\<forall>i < n. \<exists>j < numberOfBins h.
             sample random h n ! i = values_h h ! j
           \<and> real_of_int (Math_round (random i * numberOfObservations h)) \<le> cumulativeFrequency h j
           \<and> (\<forall>k < j. cumulativeFrequency h k
                        < real_of_int (Math_round (random i * numberOfObservations h)))
           \<and> 0 \<le> Math_round (random i * numberOfObservations h)
           \<and> real_of_int (Math_round (random i * numberOfObservations h)) \<le> numberOfObservations h)"
proof -
  let ?N = "numberOfBins h"
  let ?total = "numberOfObservations h"
  let ?totals = "map (\<lambda>i. Some (cumulativeFrequency h i)) [0..<?N]"
  let ?r = "\<lambda>i. real_of_int (Math_round (random i * ?total))"
  let ?pick = "\<lambda>i. findBin (Some (?r i)) ?totals 0"
  have tl: "totals_loop h = (Some ?total, ?totals)" by (rule totals_loop_wf [OF wf])
  have int: "?total \<in> \<int>" and nn: "0 \<le> ?total"
    using freq by (simp_all add: numberOfObservations_sum_list sum_list_Ints sum_list_nonneg')
  have last: "cumulativeFrequency h (?N - 1) = ?total"
    using wf bins by (simp add: cumulativeFrequency_def numberOfObservations_sum_list)
  have range: "0 \<le> Math_round (random i * ?total) \<and> ?r i \<le> ?total" for i
    using round_within_total [OF int nn] rnd by blast
  have found: "\<exists>j. ?pick i = Some j" for i
  proof (rule findBin_finds)
    have "?N - 1 < length ?totals" using bins by simp
    moreover have "jsLe (Some (?r i)) (?totals ! (?N - 1))"
      using bins range [of i] last by simp
    ultimately show "\<exists>k < length ?totals. jsLe (Some (?r i)) (?totals ! k)" by blast
  qed
  have s: "sample random h n = map (\<lambda>i. values_h h ! the (?pick i)) [0..<n]"
    using sample_fold_all_found [of ?pick "values_h h" n] found
    by (simp add: sample_def tl randomIndexOf_def)
  have "\<exists>j < ?N. sample random h n ! i = values_h h ! j
           \<and> ?r i \<le> cumulativeFrequency h j
           \<and> (\<forall>k < j. cumulativeFrequency h k < ?r i)" if i: "i < n" for i
  proof -
    from found [of i] obtain j where j: "?pick i = Some j" by blast
    have jl: "j < ?N" using findBin_Some0(1) [OF j] by simp
    have eqj: "?totals ! j = Some (cumulativeFrequency h j)" using jl by simp
    have "jsLe (Some (?r i)) (?totals ! j)" by (rule findBin_Some0(2) [OF j])
    then have "?r i \<le> cumulativeFrequency h j" unfolding eqj by simp
    moreover have "\<forall>k < j. cumulativeFrequency h k < ?r i"
    proof (intro allI impI)
      fix k assume kj: "k < j"
      from kj jl have "k < ?N" by simp
      then have eq: "?totals ! k = Some (cumulativeFrequency h k)" by simp
      from findBin_Some0(3) [OF j] kj have "\<not> jsLe (Some (?r i)) (?totals ! k)" by blast
      then show "cumulativeFrequency h k < ?r i" unfolding eq by simp
    qed
    moreover have "sample random h n ! i = values_h h ! j" using s i j by simp
    ultimately show ?thesis using jl by blast
  qed
  then show ?thesis using s range by auto
qed

theorem sample_counts_witness:
  "sample (constRandom (3 / 4))
        \<lparr>values_h = [0, 1], frequencies = [1, 2], sum_h = 2, sumOfSquares = 2\<rparr> 2 = [1, 1]"
proof -
  let ?h = "\<lparr>values_h = [0, 1], frequencies = [1, 2], sum_h = 2, sumOfSquares = 2\<rparr>"
  have wf: "length (frequencies ?h) = numberOfBins ?h" and b: "2 \<le> numberOfBins ?h"
    by (simp_all add: numberOfBins_def)
  have f: "\<forall>f \<in> set (frequencies ?h). 0 \<le> f \<and> f \<in> \<int>" by simp
  have r: "\<forall>c. 0 \<le> constRandom (3 / 4) c \<and> constRandom (3 / 4) c < 1" by (simp add: constRandom_def)
  have n: "numberOfObservations ?h = 3" by (simp add: numberOfObservations_def)
  have "\<lfloor>(11 / 4 :: real)\<rfloor> = 2" by (rule floor_unique) auto
  then have rr: "Math_round (constRandom (3 / 4) i * numberOfObservations ?h) = 2" for i
    by (simp add: n constRandom_def Math_round_def)
  have c0: "cumulativeFrequency ?h 0 = 1" by (simp add: cumulativeFrequency_def)
  from sample_counts [OF wf b f r, of 2] have len: "length (sample (constRandom (3 / 4)) ?h 2) = 2"
    and el: "\<forall>i < 2. \<exists>j < numberOfBins ?h. sample (constRandom (3 / 4)) ?h 2 ! i = values_h ?h ! j
               \<and> real_of_int (Math_round (constRandom (3 / 4) i * numberOfObservations ?h))
                    \<le> cumulativeFrequency ?h j"
    by blast+
  have "sample (constRandom (3 / 4)) ?h 2 ! i = 1" if "i < 2" for i
  proof -
    from el that obtain j where j: "j < numberOfBins ?h"
      and v: "sample (constRandom (3 / 4)) ?h 2 ! i = values_h ?h ! j"
      and c: "real_of_int (Math_round (constRandom (3 / 4) i * numberOfObservations ?h))
                    \<le> cumulativeFrequency ?h j" by blast
    from c have two: "2 \<le> cumulativeFrequency ?h j" unfolding rr by simp
    have "j \<noteq> 0"
    proof
      assume "j = 0"
      with two c0 show False by simp
    qed
    with j have "j = 1" by (simp add: numberOfBins_def)
    with v show ?thesis by simp
  qed
  then have "sample (constRandom (3 / 4)) ?h 2 ! 0 = 1" "sample (constRandom (3 / 4)) ?h 2 ! 1 = 1"
    by simp_all
  with len show ?thesis by (intro nth_equalityI) (auto simp: less_Suc_eq numeral_2_eq_2)
qed

text \<open>
  With the frequencies 1/2 and 1/4 over the bins 0 and 1 and a draw of 3/4, the random index
  is round(9/16) = 1, above both cumulative frequencies 1/2 and 3/4: no bin is selected and
  a sample of size 1 comes back empty.
\<close>

theorem sample_fractional_counterexample:
  "numberOfBins \<lparr>values_h = [0, 1], frequencies = [1 / 2, 1 / 4], sum_h = 1 / 4, sumOfSquares = 1 / 4\<rparr> = 2
   \<and> list_all ((\<le>) 0) (frequencies \<lparr>values_h = [0, 1], frequencies = [1 / 2, 1 / 4], sum_h = 1 / 4, sumOfSquares = 1 / 4\<rparr>)
   \<and> 0 \<le> constRandom (3 / 4) 0 \<and> constRandom (3 / 4) 0 < 1
   \<and> sample (constRandom (3 / 4))
        \<lparr>values_h = [0, 1], frequencies = [1 / 2, 1 / 4], sum_h = 1 / 4, sumOfSquares = 1 / 4\<rparr> 1 = []"
proof -
  have "\<lfloor>(17 / 16 :: real)\<rfloor> = 1" by (rule floor_unique) auto
  then show ?thesis
    by (simp add: sample_def totals_loop_def numberOfBins_def elemAt_def upt_rec Let_def
        randomIndexOf_def Math_round_def constRandom_def)
qed

subsection \<open>zprob\<close>

lemma zprob_loop_prefix:
  "fold (\<lambda>i (b, hh). (let a = exp (- hh * hh / 9) * sin (hh * s) / hh in (b + a, hh + 1)))
        [0..<n] (0, 0.5)
     = ((\<Sum>k<n. exp (- (1 / 2 + real k) * (1 / 2 + real k) / 9)
                * sin ((1 / 2 + real k) * s) / (1 / 2 + real k)),
        1 / 2 + real n)"
  by (induction n) (simp_all add: Let_def algebra_simps)

lemma zprob_loop_series: "fst (zprob_loop s) = zprobSeries s"
  unfolding zprob_loop_def zprobSeries_def zprob_loop_prefix by simp

lemma zprob_nonneg:
  assumes "0 \<le> z" "z \<le> 7"
  shows "zprob z = 1 / 2 - zprobSeries (sqrt 2 / 3 * z) / pi"
proof -
  have "\<not> z < - 7" "\<not> z > 7" "\<not> z < 0" "\<bar>z\<bar> = z" using assms by simp_all
  then show ?thesis unfolding zprob_def Let_def zprob_loop_series by simp
qed

lemma zprob_neg:
  assumes "- 7 \<le> z" "z < 0"
  shows "zprob z = 1 - (1 / 2 - zprobSeries (sqrt 2 / 3 * \<bar>z\<bar>) / pi)"
proof -
  have "\<not> z < - 7" "\<not> z > 7" "z < 0" using assms by simp_all
  then show ?thesis unfolding zprob_def Let_def zprob_loop_series by simp
qed

lemma sqrt2_less: "sqrt 2 < 3 / 2"
proof -
  have "sqrt 2 < sqrt ((3 / 2)\<^sup>2)" by (simp add: power2_eq_square)
  then show ?thesis by simp
qed

lemma zprobSeries_pos:
  assumes "0 < s" "s < 1 / 8"
  shows "0 < zprobSeries s"
  unfolding zprobSeries_def
proof (rule sum_pos)
  show "finite {..<(12::nat)}" by simp
  have "(0::nat) \<in> {..<12}" by simp
  then show "{..<(12::nat)} \<noteq> {}" by blast
  fix k :: nat assume "k \<in> {..<12}"
  then have k: "real k \<le> 11" by simp
  let ?h = "1 / 2 + real k"
  have h: "0 < ?h" "?h \<le> 23 / 2" using k by simp_all
  have "?h * s \<le> 23 / 2 * s" using h assms by (intro mult_right_mono) simp_all
  also have "\<dots> < 23 / 2 * (1 / 8)" using assms by simp
  also have "\<dots> < 2" by simp
  also have "2 \<le> pi" by (rule pi_ge_two)
  finally have up: "?h * s < pi" .
  have "0 < ?h * s" using h assms by simp
  then have "0 < sin (?h * s)" using up by (rule sin_gt_zero)
  then show "0 < exp (- ?h * ?h / 9) * sin (?h * s) / ?h"
    using h by simp
qed

text \<open>
  Claim C1 asks that \<open>zprob\<close> is 1/2 at 0, 1 at 10, 0 at -10, and monotonically
  non-decreasing between -7 and 7. The two clamps are those of a distribution function:
  0 below -7 and 1 above 7. The series branch between them returns \<open>1/2 - S / pi\<close> for
  \<open>z \<ge> 0\<close> and its reflection for \<open>z < 0\<close>, which is the area of the upper tail: at the two
  points -1/4 and 1/4 of the interval the result is above 1/2 at -1/4 and below 1/2 at 1/4,
  against the order that the claim and the clamps ask for.
\<close>

theorem zprob_order_reversed:
  "zprob (- 10) = 0 \<and> zprob 10 = 1
   \<and> - 7 \<le> (- (1 / 4) :: real) \<and> (- (1 / 4) :: real) \<le> 1 / 4 \<and> (1 / 4 :: real) \<le> 7
   \<and> zprob (1 / 4) < 1 / 2 \<and> 1 / 2 < zprob (- (1 / 4))
   \<and> \<not> zprob (- (1 / 4)) \<le> zprob (1 / 4)"
proof -
  let ?s = "sqrt 2 / 3 * (1 / 4)"
  have s0: "0 < ?s" by simp
  have "?s < (3 / 2) / 3 * (1 / 4)" using sqrt2_less by simp
  then have "?s < 1 / 8" by simp
  with s0 have "0 < zprobSeries ?s" by (rule zprobSeries_pos)
  moreover have "0 < pi" by (rule pi_gt_zero)
  ultimately have p: "0 < zprobSeries ?s / pi" by simp
  have "zprob (1 / 4) = 1 / 2 - zprobSeries ?s / pi" by (rule zprob_nonneg) simp_all
  with p have lo: "zprob (1 / 4) < 1 / 2" by linarith
  have "zprob (- (1 / 4)) = 1 - (1 / 2 - zprobSeries (sqrt 2 / 3 * \<bar>- (1 / 4)\<bar>) / pi)"
    by (rule zprob_neg) simp_all
  moreover have "\<bar>- (1 / 4 :: real)\<bar> = 1 / 4" by simp
  ultimately have "zprob (- (1 / 4)) = 1 - (1 / 2 - zprobSeries ?s / pi)" by simp
  with p have hi: "1 / 2 < zprob (- (1 / 4))" by linarith
  have "zprob (- 10) = 0" "zprob 10 = 1" by (simp_all add: zprob_def)
  with lo hi show ?thesis by simp
qed

subsection \<open>sampleMany\<close>

lemma toFixed2_round: "toFixed2 (Some v) = Some (roundTwoDecimals v)"
proof (cases "v < 0")
  case True
  then have "sgn v = - 1" "\<bar>v\<bar> = - v" by simp_all
  then show ?thesis using True
    by (simp add: roundTwoDecimals_def Math_round_def algebra_simps)
next
  case False
  show ?thesis
  proof (cases "v = 0")
    case True
    then show ?thesis by (simp add: roundTwoDecimals_def)
  next
    case nz: False
    with False have "sgn v = 1" "\<bar>v\<bar> = v" by simp_all
    then show ?thesis using False
      by (simp add: roundTwoDecimals_def Math_round_def algebra_simps)
  qed
qed

lemma roundTwoDecimals_nearest: "\<bar>roundTwoDecimals v - v\<bar> \<le> 1 / 200"
proof (cases "v < 0")
  case True
  define n where "n = real_of_int \<lfloor>100 * (- v) + 1 / 2\<rfloor>"
  have b: "100 * (- v) - 1 / 2 \<le> n" "n \<le> 100 * (- v) + 1 / 2"
    unfolding n_def by linarith+
  have r: "roundTwoDecimals v = - (n / 100)"
    using True by (simp add: roundTwoDecimals_def Math_round_def n_def)
  have "- (n / 100) - v \<le> 1 / 200" "- (- (n / 100) - v) \<le> 1 / 200"
    using b by simp_all
  then show ?thesis unfolding r by (rule abs_leI)
next
  case False
  define n where "n = real_of_int \<lfloor>100 * v + 1 / 2\<rfloor>"
  have b: "100 * v - 1 / 2 \<le> n" "n \<le> 100 * v + 1 / 2"
    unfolding n_def by linarith+
  have r: "roundTwoDecimals v = n / 100"
    using False by (cases "v = 0") (simp_all add: roundTwoDecimals_def Math_round_def n_def)
  have "n / 100 - v \<le> 1 / 200" "- (n / 100 - v) \<le> 1 / 200"
    using b by simp_all
  then show ?thesis unfolding r by (rule abs_leI)
qed

lemma toFixed2_round2: "toFixed2 v = round2 v"
  by (cases v) (simp_all add: round2_def toFixed2_round del: toFixed2.simps(2))

lemma totals_loop_prefix_general:
  assumes "k \<le> numberOfBins h"
  shows "fold (\<lambda>i (numberOfObs, totals).
             (let numberOfObs' = jsAdd numberOfObs (elemAt (frequencies h) i)
              in (numberOfObs', totals @ [numberOfObs'])))
          [0..<k] (Some 0, [])
         = ((if k \<le> length (frequencies h) then Some (sum_list (take k (frequencies h))) else None),
            map (cumulativeNumber h) [0..<k])"
  using assms
proof (induction k)
  case 0
  show ?case by simp
next
  case (Suc k)
  then have IH: "fold (\<lambda>i (numberOfObs, totals).
             (let numberOfObs' = jsAdd numberOfObs (elemAt (frequencies h) i)
              in (numberOfObs', totals @ [numberOfObs'])))
          [0..<k] (Some 0, [])
         = ((if k \<le> length (frequencies h) then Some (sum_list (take k (frequencies h))) else None),
            map (cumulativeNumber h) [0..<k])" by simp
  show ?case
  proof (cases "k < length (frequencies h)")
    case True
    then show ?thesis using IH
      by (simp add: elemAt_def Let_def cumulativeNumber_def cumulativeFrequency_def
          take_Suc_conv_app_nth)
  next
    case False
    then show ?thesis using IH
      by (simp add: elemAt_def Let_def cumulativeNumber_def)
  qed
qed

lemma totals_loop_general:
  "totals_loop h = (totalNumber h, map (cumulativeNumber h) [0..<numberOfBins h])"
  using totals_loop_prefix_general [of "numberOfBins h" h]
  by (simp add: totals_loop_def totalNumber_def)

lemma findBin_find:
  "findBin r (map g [j0..<n]) j0 = find (\<lambda>j. jsLe r (g j)) [j0..<n]"
proof (induction "n - j0" arbitrary: j0)
  case 0
  then show ?case by simp
next
  case (Suc d)
  then have lt: "j0 < n" by simp
  have "d = n - Suc j0" using Suc.hyps(2) by simp
  from Suc.hyps(1) [OF this] show ?case using lt by (simp add: upt_conv_Cons)
qed

lemma findBin_selectedBin:
  "findBin (randomIndexOf u (totalNumber h)) (map (cumulativeNumber h) [0..<numberOfBins h]) 0
     = selectedBin h u"
  by (simp add: selectedBin_def findBin_find)

lemma draw_None:
  assumes "selectedBin h (random (calls st)) = None"
  shows "draw random selected h (totalNumber h) (map (cumulativeNumber h) [0..<numberOfBins h]) i st
           = st\<lparr>calls := calls st + 1\<rparr>"
  using assms by (simp add: draw_def findBin_selectedBin Let_def)

lemma draw_Some:
  assumes "selectedBin h (random (calls st)) = Some j"
  shows "draw random selected h (totalNumber h) (map (cumulativeNumber h) [0..<numberOfBins h]) i st
           = (if selected = ''Normal''
              then st\<lparr>calls := calls st + 2,
                     sampleData := setAt (sampleData st) i
                        (round2 (jsAdd (Some (values_h h ! j))
                                   (jsMul (Some (random (calls st + 1) - 0.5)) (step2Of h)))),
                     sampleValues := sampleValues st @
                        [round2 (jsAdd (Some (values_h h ! j))
                                   (jsMul (Some (random (calls st + 1) - 0.5)) (step2Of h)))]\<rparr>
              else st\<lparr>calls := calls st + 1,
                     sampleData := setAt (sampleData st) i (round2 (Some (values_h h ! j))),
                     sampleValues := sampleValues st @ [round2 (Some (values_h h ! j))]\<rparr>)"
  using assms by (simp add: draw_def findBin_selectedBin Let_def toFixed2_round2 del: toFixed2.simps)

lemma draws_trace:
  "sampleData (fold (draw random selected h (totalNumber h)
                       (map (cumulativeNumber h) [0..<numberOfBins h])) ps st)
     = placed (drawsFrom random selected h (calls st) ps) (sampleData st)
   \<and> sampleValues (fold (draw random selected h (totalNumber h)
                         (map (cumulativeNumber h) [0..<numberOfBins h])) ps st)
     = sampleValues st @ map (\<lambda>(i, v). round2 v) (drawsFrom random selected h (calls st) ps)"
proof (induction ps arbitrary: st)
  case Nil
  show ?case by (simp add: placed_def)
next
  case (Cons i ps)
  let ?d = "draw random selected h (totalNumber h) (map (cumulativeNumber h) [0..<numberOfBins h])"
  show ?case
  proof (cases "selectedBin h (random (calls st))")
    case None
    let ?st1 = "st\<lparr>calls := calls st + 1\<rparr>"
    have st1: "?d i st = ?st1" using draw_None [of h random st selected i] None by simp
    have f: "fold ?d (i # ps) st = fold ?d ps ?st1" by (simp add: st1)
    have t: "drawsFrom random selected h (calls st) (i # ps)
               = drawsFrom random selected h (calls ?st1) ps" using None by simp
    show ?thesis unfolding f t using Cons.IH [of ?st1] by simp
  next
    case (Some j)
    show ?thesis
    proof (cases "selected = ''Normal''")
      case True
      let ?v = "jsAdd (Some (values_h h ! j)) (jsMul (Some (random (calls st + 1) - 0.5)) (step2Of h))"
      let ?st1 = "st\<lparr>calls := calls st + 2, sampleData := setAt (sampleData st) i (round2 ?v),
                     sampleValues := sampleValues st @ [round2 ?v]\<rparr>"
      have st1: "?d i st = ?st1" using draw_Some [of h random st j selected i] Some True by simp
      have f: "fold ?d (i # ps) st = fold ?d ps ?st1" by (simp add: st1)
      have t: "drawsFrom random selected h (calls st) (i # ps)
                 = (i, ?v) # drawsFrom random selected h (calls ?st1) ps" using Some True by simp
      show ?thesis unfolding f t using Cons.IH [of ?st1] by (simp add: placed_def)
    next
      case False
      let ?v = "Some (values_h h ! j)"
      let ?st1 = "st\<lparr>calls := calls st + 1, sampleData := setAt (sampleData st) i (round2 ?v),
                     sampleValues := sampleValues st @ [round2 ?v]\<rparr>"
      have st1: "?d i st = ?st1" using draw_Some [of h random st j selected i] Some False by simp
      have f: "fold ?d (i # ps) st = fold ?d ps ?st1" by (simp add: st1)
      have t: "drawsFrom random selected h (calls st) (i # ps)
                 = (i, ?v) # drawsFrom random selected h (calls ?st1) ps" using Some False by simp
      show ?thesis unfolding f t using Cons.IH [of ?st1] by (simp add: placed_def)
    qed
  qed
qed

lemma positions_Suc: "positions sampleSize (Suc m) = positions sampleSize m @ [0..<sampleSize]"
proof -
  have "replicate (Suc m) [0..<sampleSize] = replicate m [0..<sampleSize] @ [[0..<sampleSize]]"
    by (simp add: replicate_append_same)
  then show ?thesis by (simp add: positions_def del: replicate_Suc)
qed

lemma samples_loop:
  "fold (\<lambda>sampleIndex (resultsData, st).
           (let st' = fold d [0..<sampleSize] st; result = f (sampleData st')
            in (resultsData @ [result], st')))
        [0..<n] ([], st0)
     = (map (\<lambda>m. f (sampleData (fold d (positions sampleSize (Suc m)) st0))) [0..<n],
        fold d (positions sampleSize n) st0)"
proof (induction n)
  case 0
  show ?case by (simp add: positions_def)
next
  case (Suc n)
  have "fold d [0..<sampleSize] (fold d (positions sampleSize n) st0)
          = fold d (positions sampleSize (Suc n)) st0"
    by (simp add: positions_Suc)
  then show ?case using Suc by (simp add: Let_def)
qed

lemma step2Of_defined:
  assumes "2 \<le> numberOfBins h"
  shows "\<exists>d. step2Of h = Some d"
proof -
  have "elemAt (values_h h) 1 = Some (values_h h ! 1)" "elemAt (values_h h) 0 = Some (values_h h ! 0)"
    using assms by (auto simp: elemAt_def numberOfBins_def)
  then have "step2Of h = Some ((values_h h ! 1 - values_h h ! 0) / 2)"
    by (simp add: step2Of_def)
  then show ?thesis by blast
qed

lemma drawsFrom_defined:
  assumes "2 \<le> numberOfBins h"
  shows "list_all (\<lambda>(i, v). v \<noteq> None) (drawsFrom random selected h c ps)"
proof (induction ps arbitrary: c)
  case Nil
  show ?case by simp
next
  case (Cons i ps)
  from step2Of_defined [OF assms] obtain d where d: "step2Of h = Some d" by blast
  show ?case using Cons [of "c + 1"] Cons [of "c + 2"] d
    by (auto split: option.splits)
qed

lemma drawsFrom_values:
  "(i, v) \<in> set (drawsFrom random selected h c ps) \<Longrightarrow>
     i \<in> set ps \<and>
     (\<exists>j < numberOfBins h.
        if selected = ''Normal''
        then (\<exists>c'. v = jsAdd (Some (values_h h ! j)) (jsMul (Some (random c' - 0.5)) (step2Of h)))
        else v = Some (values_h h ! j))"
proof (induction ps arbitrary: c)
  case Nil
  then show ?case by simp
next
  case (Cons p ps)
  show ?case
  proof (cases "selectedBin h (random c)")
    case None
    with Cons.prems have "(i, v) \<in> set (drawsFrom random selected h (c + 1) ps)" by simp
    from Cons.IH [OF this] show ?thesis by auto
  next
    case (Some j)
    then have "j \<in> set [0..<numberOfBins h]"
      unfolding selectedBin_def by (auto simp: find_Some_iff)
    then have j: "j < numberOfBins h" by simp
    show ?thesis
    proof (cases "selected = ''Normal''")
      case True
      with Some Cons.prems consider
        "(i, v) = (p, jsAdd (Some (values_h h ! j)) (jsMul (Some (random (c + 1) - 0.5)) (step2Of h)))"
        | "(i, v) \<in> set (drawsFrom random selected h (c + 2) ps)" by auto
      then show ?thesis
      proof cases
        case 1
        then show ?thesis using True j by auto
      next
        case 2
        from Cons.IH [OF this] show ?thesis by auto
      qed
    next
      case False
      with Some Cons.prems consider "(i, v) = (p, Some (values_h h ! j))"
        | "(i, v) \<in> set (drawsFrom random selected h (c + 1) ps)" by auto
      then show ?thesis
      proof cases
        case 1
        then show ?thesis using False j by auto
      next
        case 2
        from Cons.IH [OF this] show ?thesis by auto
      qed
    qed
  qed
qed

lemma setAt_entries: "e \<in> set (setAt sd i x) \<Longrightarrow> e \<in> set sd \<or> e = None \<or> e = x"
  by (auto simp: setAt_def dest: set_update_subset_insert [THEN subsetD] split: if_splits)

lemma placed_entries:
  "e \<in> set (placed ds sd) \<Longrightarrow> e \<in> set sd \<or> e = None \<or> (\<exists>(i, v) \<in> set ds. e = round2 v)"
proof (induction ds arbitrary: sd)
  case Nil
  then show ?case by (simp add: placed_def)
next
  case (Cons d ds)
  obtain i v where d: "d = (i, v)" by (cases d)
  from Cons.prems have "e \<in> set (placed ds (setAt sd i (round2 v)))"
    by (simp add: placed_def d)
  from Cons.IH [OF this] consider "e \<in> set (setAt sd i (round2 v))" | "e = None"
    | "\<exists>(i, v) \<in> set ds. e = round2 v" by blast
  then show ?case
  proof cases
    case 1
    from setAt_entries [OF this] show ?thesis using d by auto
  next
    case 2
    then show ?thesis by simp
  next
    case 3
    then show ?thesis by auto
  qed
qed

text \<open>
  Claim C9, amended. Every value drawn in \<open>sampleMany\<close> is rounded to two decimal places,
  to the nearest hundredth with a tie going away from zero as \<^verbatim>\<open>toFixed(2)\<close> does, before
  it is placed in the sample and before it is appended to the log, with or without jitter:
  result number \<open>m\<close> is the reduce function applied to the array in which the rounded values
  of all draws up to sample \<open>m\<close> have been stored at their positions, and the log grows by
  exactly the rounded values of all draws, in order. With two bins or more every drawn value
  is a number.
\<close>

theorem sampleMany_rounds:
  "fst (sampleMany random selected log0 h sampleSize numberOfSamples reduceFunction)
     = map (\<lambda>m. reduceFunction
                   (placed (drawsFrom random selected h 0 (positions sampleSize (Suc m))) []))
           [0..<numberOfSamples]
   \<and> sampleValues (snd (sampleMany random selected log0 h sampleSize numberOfSamples reduceFunction))
     = log0 @ map (\<lambda>(i, v). round2 v)
                  (drawsFrom random selected h 0 (positions sampleSize numberOfSamples))
   \<and> (2 \<le> numberOfBins h \<longrightarrow>
        list_all (\<lambda>(i, v). v \<noteq> None)
          (drawsFrom random selected h 0 (positions sampleSize numberOfSamples)))"
proof -
  let ?d = "draw random selected h (totalNumber h) (map (cumulativeNumber h) [0..<numberOfBins h])"
  let ?st0 = "\<lparr>calls = 0, sampleData = [], sampleValues = log0\<rparr>"
  have m: "sampleMany random selected log0 h sampleSize numberOfSamples reduceFunction
             = (map (\<lambda>m. reduceFunction (sampleData (fold ?d (positions sampleSize (Suc m)) ?st0)))
                    [0..<numberOfSamples],
                fold ?d (positions sampleSize numberOfSamples) ?st0)"
    using samples_loop [of ?d sampleSize reduceFunction numberOfSamples ?st0]
    by (simp add: sampleMany_def totals_loop_general)
  have sd: "sampleData (fold ?d ps ?st0) = placed (drawsFrom random selected h 0 ps) []" for ps
    using draws_trace [of random selected h ps ?st0] by simp
  have sv: "sampleValues (fold ?d ps ?st0)
              = log0 @ map (\<lambda>(i, v). round2 v) (drawsFrom random selected h 0 ps)" for ps
    using draws_trace [of random selected h ps ?st0] by simp
  have "2 \<le> numberOfBins h \<longrightarrow>
        list_all (\<lambda>(i, v). v \<noteq> None)
          (drawsFrom random selected h 0 (positions sampleSize numberOfSamples))"
    using drawsFrom_defined by blast
  then show ?thesis
    unfolding m by (simp add: sd sv)
qed

theorem sampleMany_rounds_witness:
  "2 \<le> numberOfBins
          \<lparr>values_h = [1 / 8, 9 / 8], frequencies = [1, 0], sum_h = 1 / 8, sumOfSquares = 1 / 64\<rparr>
   \<and> fst (sampleMany (constRandom 0) ''Uniform'' []
          \<lparr>values_h = [1 / 8, 9 / 8], frequencies = [1, 0], sum_h = 1 / 8, sumOfSquares = 1 / 64\<rparr>
          1 2 id) = [[Some (13 / 100)], [Some (13 / 100)]]
   \<and> sampleValues (snd (sampleMany (constRandom 0) ''Uniform'' []
          \<lparr>values_h = [1 / 8, 9 / 8], frequencies = [1, 0], sum_h = 1 / 8, sumOfSquares = 1 / 64\<rparr>
          1 2 id)) = [Some (13 / 100), Some (13 / 100)]"
proof -
  let ?h = "\<lparr>values_h = [1 / 8, 9 / 8], frequencies = [1, 0], sum_h = 1 / 8, sumOfSquares = 1 / 64\<rparr>"
  have sel: "selectedBin ?h (constRandom 0 c) = Some 0" for c
    by (simp add: selectedBin_def numberOfBins_def totalNumber_def cumulativeNumber_def
        cumulativeFrequency_def randomIndexOf_def Math_round_def constRandom_def upt_rec)
  have d1: "drawsFrom (constRandom 0) ''Uniform'' ?h 0 (positions (Suc 0) (Suc 0))
              = [(0, Some (1 / 8))]"
    by (simp add: positions_def sel)
  have d2: "drawsFrom (constRandom 0) ''Uniform'' ?h 0 (positions (Suc 0) (Suc (Suc 0)))
              = [(0, Some (1 / 8)), (0, Some (1 / 8))]"
    by (simp add: positions_def sel)
  have r: "round2 (Some (1 / 8)) = Some (13 / 100)"
    by (simp add: round2_def roundTwoDecimals_def Math_round_def)
  have two: "2 \<le> numberOfBins ?h" by (simp add: numberOfBins_def)
  from sampleMany_rounds [of "constRandom 0" "''Uniform''" "[]" ?h 1 2 id]
  show ?thesis
    using two by (simp add: d1 d2 r placed_def setAt_def upt_rec numeral_2_eq_2)
qed

text \<open>For the bin value -1/8 the sample holds -0.13, while \<^verbatim>\<open>round(100 * v) / 100\<close> with the
  rounding of \<^verbatim>\<open>Math.round\<close> is -0.12.\<close>

theorem sampleMany_negative_tie:
  "fst (sampleMany (constRandom 0) ''Uniform'' []
          \<lparr>values_h = [- (1 / 8), 7 / 8], frequencies = [1, 0], sum_h = - (1 / 8), sumOfSquares = 1 / 64\<rparr>
          1 1 id) = [[Some (- (13 / 100))]]
   \<and> real_of_int (Math_round (100 * (- (1 / 8)))) / 100 = - (12 / 100)"
proof -
  have "\<lfloor>- (12 :: real)\<rfloor> = - 12" by simp
  then show ?thesis
    by (simp add: sampleMany_def totals_loop_def numberOfBins_def elemAt_def upt_rec draw_def
        randomIndexOf_def Math_round_def constRandom_def setAt_def Let_def)
qed

end
